theory Spec2Isabelle
  imports Main
begin

section \<open>IDBFactoryBackendProxy: the worker-thread permission rendezvous\<close>

text \<open>
  The source file is the Chromium WebKit \<open>IDBFactoryBackendProxy.cpp\<close>. A worker thread asks
  the main thread whether IndexedDB access is allowed and parks in its run loop, in a mode
  of its own, until the answer is posted back or the run loop's queue is terminated.

  Two threads touch the bridge object. The bodies of \<open>cancel\<close> and \<open>signalCompleted\<close> run
  under \<open>m_mutex\<close> from their first to their last statement, and \<open>result\<close> and \<open>didComplete\<close>
  are a single read and a single write, so an execution is an interleaving of whole
  method bodies. The model runs them one after the other on one \<open>world\<close> and records, in
  \<open>accesses\<close>, every lock operation and every field access in the order made.
\<close>

subsection \<open>Data\<close>

type_synonym bridge_ref = nat

text \<open>\<open>WebCommonWorkerClient*\<close>: null, or an object whose \<open>allowIndexedDB(name)\<close> answers.\<close>

type_synonym commonClient = "(string \<Rightarrow> bool) option"

text \<open>\<open>WebWorkerBase\<close>, as far as this file uses it: \<open>commonClient()\<close>.\<close>

record webWorkerBase =
  commonClient :: commonClient

text \<open>The mutable members of \<open>AllowIndexedDBMainThreadBridge\<close>; a null pointer is \<open>None\<close>.\<close>

record bridge =
  m_result :: bool
  m_webWorkerBase :: "webWorkerBase option"

datatype field = F_result | F_webWorkerBase

datatype access =
    Acquire bridge_ref
  | Release bridge_ref
  | Init bridge_ref field
  | Read bridge_ref field
  | Write bridge_ref field

text \<open>The two callback tasks made with \<open>createCallbackTask\<close>, with their bound arguments.\<close>

datatype main_task = AllowIndexedDBTask bridge_ref commonClient string string

datatype worker_task = DidComplete bridge_ref bool

datatype MessageQueueWaitResult =
    MessageQueueTerminated
  | MessageQueueTimeout
  | MessageQueueMessageReceived

text \<open>
  The state of the system: the bridges allocated so far, by reference; the tasks
  dispatched to the main thread and not yet run; the tasks posted to the worker's run
  loop, each with its mode, and not yet performed; whether the run loop's queue has been
  terminated; the counter behind \<open>createUniqueId\<close>; and the record of accesses.
\<close>

record world =
  bridges :: "bridge_ref \<Rightarrow> bridge"
  nextBridge :: bridge_ref
  mainQueue :: "main_task list"
  workerQueue :: "(string \<times> worker_task) list"
  killed :: bool
  m_uniqueId :: nat
  accesses :: "access list"

subsection \<open>The dispatch substrate\<close>

definition logA :: "access \<Rightarrow> world \<Rightarrow> world" where
  "logA a w = w\<lparr>accesses := accesses w @ [a]\<rparr>"

text \<open>
  Modelled from the spec: \<open>WebWorkerBase::dispatchTaskToMainThread\<close> is not in the source
  file. Section 6, Dispatch Substrate (a): "run this task on the authority thread".
\<close>

definition dispatchTaskToMainThread :: "main_task \<Rightarrow> world \<Rightarrow> world" where
  "dispatchTaskToMainThread t w = w\<lparr>mainQueue := mainQueue w @ [t]\<rparr>"

text \<open>
  Modelled from the spec: \<open>WebWorkerBase::postTaskForModeToWorkerContext\<close> is not in the
  source file. Section 6, Dispatch Substrate (b): "run this task on the requester thread,
  tagged with channel id".
\<close>

definition postTaskForModeToWorkerContext :: "worker_task \<Rightarrow> string \<Rightarrow> world \<Rightarrow> world" where
  "postTaskForModeToWorkerContext t mode w = w\<lparr>workerQueue := workerQueue w @ [(mode, t)]\<rparr>"

text \<open>
  Modelled from the spec: \<open>WorkerRunLoop::createUniqueId\<close> is not in the source file.
  Section 3: "monotonically increasing counter scoped to the requester's task loop".
\<close>

definition createUniqueId :: "world \<Rightarrow> nat \<times> world" where
  "createUniqueId w = (m_uniqueId w + 1, w\<lparr>m_uniqueId := m_uniqueId w + 1\<rparr>)"

text \<open>
  Modelled from the spec: \<open>String::number\<close> is not in the source file. The counter value is
  appended to the base tag in decimal.
\<close>

definition digit :: "nat \<Rightarrow> char" where
  "digit d = ''0123456789'' ! d"

fun number :: "nat \<Rightarrow> string" where
  "number n = (if n < 10 then [digit n] else number (n div 10) @ [digit (n mod 10)])"

declare number.simps [simp del]

definition allowIndexedDBMode :: string where
  "allowIndexedDBMode = ''allowIndexedDBMode''"

subsection \<open>AllowIndexedDBMainThreadBridge\<close>

definition set_webWorkerBase :: "bridge_ref \<Rightarrow> webWorkerBase option \<Rightarrow> world \<Rightarrow> world" where
  "set_webWorkerBase b v w =
     logA (Write b F_webWorkerBase)
       (w\<lparr>bridges := (bridges w)(b := (bridges w b)\<lparr>m_webWorkerBase := v\<rparr>)\<rparr>)"

definition set_result :: "bridge_ref \<Rightarrow> bool \<Rightarrow> world \<Rightarrow> world" where
  "set_result b v w =
     logA (Write b F_result)
       (w\<lparr>bridges := (bridges w)(b := (bridges w b)\<lparr>m_result := v\<rparr>)\<rparr>)"

text \<open>\<open>MutexLocker locker(m_mutex); m_webWorkerBase = 0;\<close>\<close>

definition cancel :: "bridge_ref \<Rightarrow> world \<Rightarrow> world" where
  "cancel b w = logA (Release b) (set_webWorkerBase b None (logA (Acquire b) w))"

text \<open>\<open>return m_result;\<close>\<close>

definition result :: "bridge_ref \<Rightarrow> world \<Rightarrow> bool \<times> world" where
  "result b w = (m_result (bridges w b), logA (Read b F_result) w)"

text \<open>\<open>bridge->m_result = result;\<close>\<close>

definition didComplete :: "bridge_ref \<Rightarrow> bool \<Rightarrow> world \<Rightarrow> world" where
  "didComplete b r w = set_result b r w"

text \<open>
  \<open>MutexLocker locker(m_mutex); if (m_webWorkerBase)
  m_webWorkerBase->postTaskForModeToWorkerContext(createCallbackTask(&didComplete, this, result), mode);\<close>
\<close>

definition signalCompleted :: "bridge_ref \<Rightarrow> bool \<Rightarrow> string \<Rightarrow> world \<Rightarrow> world" where
  "signalCompleted b r mode w =
     (let w1 = logA (Read b F_webWorkerBase) (logA (Acquire b) w)
      in logA (Release b)
           (case m_webWorkerBase (bridges w1 b) of
              None \<Rightarrow> w1
            | Some wb \<Rightarrow> postTaskForModeToWorkerContext (DidComplete b r) mode w1))"

definition allowIndexedDBTask :: "bridge_ref \<Rightarrow> commonClient \<Rightarrow> string \<Rightarrow> string \<Rightarrow> world \<Rightarrow> world" where
  "allowIndexedDBTask b cc name mode w =
     (case cc of
        None \<Rightarrow> signalCompleted b False mode w
      | Some c \<Rightarrow> (let allowed = c name in signalCompleted b allowed mode w))"

text \<open>
  \<open>create\<close> and the constructor: the object is allocated, \<open>m_result(false)\<close> and
  \<open>m_webWorkerBase(webWorkerBase)\<close> are initialised, the common client is read from the
  worker base and \<open>allowIndexedDBTask\<close> is dispatched to the main thread.
\<close>

definition create :: "webWorkerBase \<Rightarrow> string \<Rightarrow> string \<Rightarrow> world \<Rightarrow> bridge_ref \<times> world" where
  "create wb mode name w =
     (let b = nextBridge w;
          w1 = logA (Init b F_webWorkerBase) (logA (Init b F_result)
                 (w\<lparr>nextBridge := b + 1,
                    bridges := (bridges w)(b := \<lparr>m_result = False, m_webWorkerBase = Some wb\<rparr>)\<rparr>));
          cc = commonClient wb
      in (b, dispatchTaskToMainThread (AllowIndexedDBTask b cc name mode) w1))"

subsection \<open>The run loop\<close>

text \<open>What happens around the parked worker: the main thread runs its next task, the
  worker's queue is terminated, or the worker wakes and looks at its queue.\<close>

datatype env_event = MainThreadRuns | QueueKilled | WorkerWakes

fun run_main_task :: "main_task \<Rightarrow> world \<Rightarrow> world" where
  "run_main_task (AllowIndexedDBTask b cc name mode) w = allowIndexedDBTask b cc name mode w"

fun performTask :: "worker_task \<Rightarrow> world \<Rightarrow> world" where
  "performTask (DidComplete b r) w = didComplete b r w"

fun env_step :: "env_event \<Rightarrow> world \<Rightarrow> world" where
  "env_step MainThreadRuns w =
     (case mainQueue w of [] \<Rightarrow> w | t # ts \<Rightarrow> run_main_task t (w\<lparr>mainQueue := ts\<rparr>))"
| "env_step QueueKilled w = w\<lparr>killed := True\<rparr>"
| "env_step WorkerWakes w = w"

text \<open>The first queued task tagged with the mode, and the queue without it.\<close>

fun takeTask :: "string \<Rightarrow> (string \<times> worker_task) list \<Rightarrow> (worker_task \<times> (string \<times> worker_task) list) option" where
  "takeTask mode [] = None"
| "takeTask mode ((m, t) # q) =
     (if m = mode then Some (t, q)
      else (case takeTask mode q of None \<Rightarrow> None | Some (t', q') \<Rightarrow> Some (t', (m, t) # q')))"

text \<open>
  Modelled from the spec: \<open>WorkerRunLoop::runInMode\<close> is not in the source file. Section 6,
  Dispatch Substrate (c): "run the requester's loop in restricted mode for a given tag
  until a matching task runs or the loop is torn down"; section 4.2, step 3: "only tasks
  explicitly tagged with the wait-channel id are dispatched". \<open>wake_up\<close> is one look of
  the parked worker at its queue: \<open>None\<close> when it has to go on waiting. A terminated queue
  is seen before a queued task (section 4.2: the outcome is a denial "when teardown wins
  the race"). The schedule of \<open>runInMode\<close> lists what happens while the worker is parked;
  a schedule that ends with the worker still parked gives \<open>None\<close>.
\<close>

definition wake_up :: "string \<Rightarrow> world \<Rightarrow> (MessageQueueWaitResult \<times> world) option" where
  "wake_up mode w =
     (if killed w then Some (MessageQueueTerminated, w)
      else (case takeTask mode (workerQueue w) of
              Some (t, q) \<Rightarrow> Some (MessageQueueMessageReceived, performTask t (w\<lparr>workerQueue := q\<rparr>))
            | None \<Rightarrow> None))"

fun runInMode :: "string \<Rightarrow> env_event list \<Rightarrow> world \<Rightarrow> (MessageQueueWaitResult \<times> world) option" where
  "runInMode mode [] w = None"
| "runInMode mode (WorkerWakes # evs) w =
     (case wake_up mode w of
        Some r \<Rightarrow> Some r
      | None \<Rightarrow> runInMode mode evs w)"
| "runInMode mode (e # evs) w = runInMode mode evs (env_step e w)"

subsection \<open>IDBFactoryBackendProxy\<close>

text \<open>
  \<open>allowIDBFromWorkerThread(workerContext, name, origin)\<close>. The worker context gives the
  \<open>WebWorkerBase\<close> (the worker loader proxy of its thread), here the argument \<open>wb\<close>, and the
  run loop of its thread, whose counter and queue are fields of the world; the security
  origin is an unnamed parameter that the body does not use. The schedule \<open>evs\<close> is what
  happens while the call is parked in \<open>runInMode\<close>.

  \<open>String mode = allowIndexedDBMode; mode.append(String::number(runLoop.createUniqueId()));
  RefPtr<AllowIndexedDBMainThreadBridge> bridge = AllowIndexedDBMainThreadBridge::create(webWorkerBase, mode, name);
  if (runLoop.runInMode(workerContext, mode) == MessageQueueTerminated) { bridge->cancel(); return false; }
  return bridge->result();\<close>
\<close>

definition allowIDBFromWorkerThread :: "webWorkerBase \<Rightarrow> string \<Rightarrow> env_event list \<Rightarrow> world \<Rightarrow> (bool \<times> world) option" where
  "allowIDBFromWorkerThread wb name evs w =
     (let (uid, w1) = createUniqueId w;
          mode = allowIndexedDBMode @ number uid;
          (b, w2) = create wb mode name w1
      in case runInMode mode evs w2 of
           None \<Rightarrow> None
         | Some (rc, w3) \<Rightarrow>
             (if rc = MessageQueueTerminated then Some (False, cancel b w3)
              else Some (result b w3)))"

text \<open>
  \<open>WebPermissionClient*\<close> of the web view: null, or an object whose
  \<open>allowIndexedDB(frame, name, origin)\<close> answers.
\<close>

type_synonym frame = nat
type_synonym origin = string
type_synonym permissionClient = "(frame \<Rightarrow> string \<Rightarrow> origin \<Rightarrow> bool) option"

text \<open>What an entry point does to its collaborators, in the order done: a question put to
  the permission client, \<open>callbacks->onError(WebIDBDatabaseError(code, message))\<close>, and the
  calls on \<open>m_webIDBFactory\<close> (the frame argument is \<open>None\<close> for the null frame). The entry
  points below take the permission client of the frame's web view as their first argument;
  each is \<open>if (webView->permissionClient() && !webView->permissionClient()->allowIndexedDB(webFrame, name, origin))
  { callbacks->onError(...); return; }\<close> followed by the call on the factory. \<open>open\<close> is a
  keyword of Isabelle, so the frame-based \<open>open\<close> is \<open>open_frame\<close> here.\<close>

datatype effect =
    PermissionAsked frame string origin
  | OnError nat string
  | FactoryGetDatabaseNames origin "frame option" string
  | FactoryOpen string origin "frame option" string
  | FactoryDeleteDatabase string origin "frame option" string

definition denied_message :: string where
  "denied_message = ''The user denied permission to access the database.''"

definition getDatabaseNames :: "permissionClient \<Rightarrow> origin \<Rightarrow> frame \<Rightarrow> string \<Rightarrow> effect list" where
  "getDatabaseNames pc origin webFrame dataDir =
     (case pc of
        None \<Rightarrow> [FactoryGetDatabaseNames origin (Some webFrame) dataDir]
      | Some allowIndexedDB \<Rightarrow>
          PermissionAsked webFrame ''Database Listing'' origin #
          (if \<not> allowIndexedDB webFrame ''Database Listing'' origin
           then [OnError 0 denied_message]
           else [FactoryGetDatabaseNames origin (Some webFrame) dataDir]))"

definition open_frame :: "permissionClient \<Rightarrow> string \<Rightarrow> origin \<Rightarrow> frame \<Rightarrow> string \<Rightarrow> effect list" where
  "open_frame pc name origin webFrame dataDir =
     (case pc of
        None \<Rightarrow> [FactoryOpen name origin (Some webFrame) dataDir]
      | Some allowIndexedDB \<Rightarrow>
          PermissionAsked webFrame name origin #
          (if \<not> allowIndexedDB webFrame name origin
           then [OnError 0 denied_message]
           else [FactoryOpen name origin (Some webFrame) dataDir]))"

definition deleteDatabase :: "permissionClient \<Rightarrow> string \<Rightarrow> origin \<Rightarrow> frame \<Rightarrow> string \<Rightarrow> effect list" where
  "deleteDatabase pc name origin webFrame dataDir =
     (case pc of
        None \<Rightarrow> [FactoryDeleteDatabase name origin (Some webFrame) dataDir]
      | Some allowIndexedDB \<Rightarrow>
          PermissionAsked webFrame name origin #
          (if \<not> allowIndexedDB webFrame name origin
           then [OnError 0 denied_message]
           else [FactoryDeleteDatabase name origin (Some webFrame) dataDir]))"

text \<open>
  The body of \<open>openFromWorker\<close> stands between \<open>#if ENABLE(WORKERS)\<close> and \<open>#endif\<close>: the
  first argument is that build flag, and without it the function does nothing.
\<close>

definition openFromWorker :: "bool \<Rightarrow> webWorkerBase \<Rightarrow> string \<Rightarrow> origin \<Rightarrow> string \<Rightarrow> env_event list \<Rightarrow> world \<Rightarrow> (effect list \<times> world) option" where
  "openFromWorker enable_workers wb name origin dataDir evs w =
     (if \<not> enable_workers then Some ([], w)
      else (case allowIDBFromWorkerThread wb name evs w of
              None \<Rightarrow> None
            | Some (allowed, w') \<Rightarrow>
                (if \<not> allowed then Some ([OnError 0 denied_message], w')
                 else Some ([FactoryOpen name origin None dataDir], w'))))"

subsection \<open>Vocabulary of the properties\<close>

text \<open>The wait-channel id a call of \<open>allowIDBFromWorkerThread\<close> on \<open>w\<close> generates, and the
  bridge and world with which it enters \<open>runInMode\<close>.\<close>

definition mode_of :: "nat \<Rightarrow> string" where
  "mode_of k = allowIndexedDBMode @ number k"

definition check_mode :: "world \<Rightarrow> string" where
  "check_mode w = mode_of (fst (createUniqueId w))"

definition check_start :: "webWorkerBase \<Rightarrow> string \<Rightarrow> world \<Rightarrow> bridge_ref \<times> world" where
  "check_start wb name w = create wb (check_mode w) name (snd (createUniqueId w))"

text \<open>The answer the main thread computes in \<open>allowIndexedDBTask\<close>.\<close>

definition answer :: "commonClient \<Rightarrow> string \<Rightarrow> bool" where
  "answer cc name = (case cc of None \<Rightarrow> False | Some c \<Rightarrow> c name)"

text \<open>An idle system: no bridge allocated, nothing queued, the run loop alive.\<close>

definition idle_world :: world where
  "idle_world =
     \<lparr>bridges = (\<lambda>_. \<lparr>m_result = False, m_webWorkerBase = None\<rparr>), nextBridge = 0,
      mainQueue = [], workerQueue = [], killed = False, m_uniqueId = 0, accesses = []\<rparr>"

text \<open>The fields of the program, without the record of accesses.\<close>

definition program_state :: "world \<Rightarrow> (bridge_ref \<Rightarrow> bridge) \<times> bridge_ref \<times> main_task list \<times> (string \<times> worker_task) list \<times> bool \<times> nat" where
  "program_state w = (bridges w, nextBridge w, mainQueue w, workerQueue w, killed w, m_uniqueId w)"


text \<open>The accesses made on the way from world \<open>w\<close> to world \<open>w'\<close>.\<close>

definition made :: "world \<Rightarrow> world \<Rightarrow> access list" where
  "made w w' = drop (length (accesses w)) (accesses w')"

definition result_writes :: "bridge_ref \<Rightarrow> world \<Rightarrow> nat" where
  "result_writes b w = length (filter (\<lambda>a. a = Write b F_result) (accesses w))"

definition result_reads :: "bridge_ref \<Rightarrow> world \<Rightarrow> nat" where
  "result_reads b w = length (filter (\<lambda>a. a = Read b F_result) (accesses w))"

text \<open>The two operations that take the mutex, in any order and number.\<close>

datatype bridge_op = Cancel | SignalCompleted bool string

fun apply_op :: "bridge_ref \<Rightarrow> bridge_op \<Rightarrow> world \<Rightarrow> world" where
  "apply_op b Cancel w = cancel b w"
| "apply_op b (SignalCompleted r mode) w = signalCompleted b r mode w"

text \<open>What a queued main-thread task carries, and the completion it will post when it runs
  on bridges \<open>bs\<close>: none when the back-reference of its bridge is cleared.\<close>

fun task_bridge :: "main_task \<Rightarrow> bridge_ref" where
  "task_bridge (AllowIndexedDBTask b cc name mode) = b"

fun task_mode :: "main_task \<Rightarrow> string" where
  "task_mode (AllowIndexedDBTask b cc name mode) = mode"

fun task_answer :: "main_task \<Rightarrow> bool" where
  "task_answer (AllowIndexedDBTask b cc name mode) = answer cc name"

fun completed_bridge :: "worker_task \<Rightarrow> bridge_ref" where
  "completed_bridge (DidComplete b r) = b"

definition post_of :: "(bridge_ref \<Rightarrow> bridge) \<Rightarrow> main_task \<Rightarrow> (string \<times> worker_task) list" where
  "post_of bs t =
     (case m_webWorkerBase (bs (task_bridge t)) of
        None \<Rightarrow> []
      | Some wb \<Rightarrow> [(task_mode t, DidComplete (task_bridge t) (task_answer t))])"

text \<open>No queued task carries the mode.\<close>

definition mode_unused :: "string \<Rightarrow> world \<Rightarrow> bool" where
  "mode_unused m w \<longleftrightarrow> m \<notin> fst ` set (workerQueue w) \<and> m \<notin> task_mode ` set (mainQueue w)"

text \<open>Every mode a queued task carries was made from a counter value already handed out.\<close>

definition modes_bounded :: "world \<Rightarrow> bool" where
  "modes_bounded w \<longleftrightarrow>
     (\<forall>m \<in> fst ` set (workerQueue w) \<union> task_mode ` set (mainQueue w).
        m \<in> mode_of ` {..m_uniqueId w})"

text \<open>No queued task and no recorded access refers to a bridge not yet allocated.\<close>

fun access_bridge :: "access \<Rightarrow> bridge_ref" where
  "access_bridge (Acquire b) = b"
| "access_bridge (Release b) = b"
| "access_bridge (Init b f) = b"
| "access_bridge (Read b f) = b"
| "access_bridge (Write b f) = b"

definition refs_allocated :: "world \<Rightarrow> bool" where
  "refs_allocated w \<longleftrightarrow>
     (\<forall>t \<in> set (mainQueue w). task_bridge t < nextBridge w) \<and>
     (\<forall>p \<in> set (workerQueue w). completed_bridge (snd p) < nextBridge w) \<and>
     (\<forall>a \<in> set (accesses w). access_bridge a < nextBridge w)"

text \<open>
  What can happen in the system over the lifetime of a bridge: the surroundings of the
  parked worker act, the worker performs the first queued task of a mode or (in its
  default mode) the first queued task, unless its queue is terminated, and the worker
  starts another permission check, cancels a bridge or reads a bridge's result.
\<close>

datatype life_event =
    Env env_event
  | PerformsInMode string
  | PerformsNext
  | StartsCheck webWorkerBase string
  | Cancels bridge_ref
  | ReadsResult bridge_ref

fun life_step :: "life_event \<Rightarrow> world \<Rightarrow> world" where
  "life_step (Env e) w = env_step e w"
| "life_step (PerformsInMode mode) w =
     (case wake_up mode w of Some (rc, w') \<Rightarrow> w' | None \<Rightarrow> w)"
| "life_step PerformsNext w =
     (if killed w then w
      else (case workerQueue w of [] \<Rightarrow> w | (m, t) # q \<Rightarrow> performTask t (w\<lparr>workerQueue := q\<rparr>)))"
| "life_step (StartsCheck wb name) w = snd (check_start wb name w)"
| "life_step (Cancels b) w = cancel b w"
| "life_step (ReadsResult b) w = snd (result b w)"

text \<open>The completions of bridge \<open>b\<close> still on their way: main-thread tasks not yet run and
  completion tasks not yet performed.\<close>

definition pending :: "bridge_ref \<Rightarrow> world \<Rightarrow> nat" where
  "pending b w =
     length (filter (\<lambda>t. task_bridge t = b) (mainQueue w)) +
     length (filter (\<lambda>p. completed_bridge (snd p) = b) (workerQueue w))"

text \<open>Two worker bases for examples: one whose client allows exactly the name \<open>inbox\<close>, and one
  with no client.\<close>

definition inbox_client :: webWorkerBase where
  "inbox_client = \<lparr>commonClient = Some (\<lambda>n. n = ''inbox'')\<rparr>"

definition no_client :: webWorkerBase where
  "no_client = \<lparr>commonClient = None\<rparr>"

text \<open>The idle system after a check has been started and the main thread has answered it:
  the completion of that request is queued on the live run loop and not yet performed.\<close>

definition answered_world :: world where
  "answered_world = fold life_step [StartsCheck inbox_client ''inbox'', Env MainThreadRuns] idle_world"

section \<open>The operations in closed form\<close>

lemmas op_defs = logA_def dispatchTaskToMainThread_def postTaskForModeToWorkerContext_def
  set_webWorkerBase_def set_result_def cancel_def result_def didComplete_def signalCompleted_def
  allowIndexedDBTask_def

lemma signalCompleted_eq:
  "signalCompleted b r mode w =
     w\<lparr>workerQueue := workerQueue w @
          (case m_webWorkerBase (bridges w b) of None \<Rightarrow> [] | Some wb \<Rightarrow> [(mode, DidComplete b r)]),
       accesses := accesses w @ [Acquire b, Read b F_webWorkerBase, Release b]\<rparr>"
  by (simp add: op_defs split: option.split)

lemma allowIndexedDBTask_eq:
  "allowIndexedDBTask b cc name mode w = signalCompleted b (answer cc name) mode w"
  by (simp add: allowIndexedDBTask_def answer_def split: option.split)

lemma run_main_task_eq:
  "run_main_task t w =
     w\<lparr>workerQueue := workerQueue w @ post_of (bridges w) t,
       accesses := accesses w @
          [Acquire (task_bridge t), Read (task_bridge t) F_webWorkerBase, Release (task_bridge t)]\<rparr>"
  by (cases t) (simp add: allowIndexedDBTask_eq signalCompleted_eq post_of_def split: option.split)

lemma cancel_eq:
  "cancel b w =
     w\<lparr>bridges := (bridges w)(b := (bridges w b)\<lparr>m_webWorkerBase := None\<rparr>),
       accesses := accesses w @ [Acquire b, Write b F_webWorkerBase, Release b]\<rparr>"
  by (simp add: op_defs)

lemma didComplete_eq:
  "didComplete b r w =
     w\<lparr>bridges := (bridges w)(b := (bridges w b)\<lparr>m_result := r\<rparr>),
       accesses := accesses w @ [Write b F_result]\<rparr>"
  by (simp add: op_defs)

lemma result_eq:
  "result b w = (m_result (bridges w b), w\<lparr>accesses := accesses w @ [Read b F_result]\<rparr>)"
  by (simp add: op_defs)

lemma check_start_eq:
  "check_start wb name w =
     (nextBridge w,
      w\<lparr>m_uniqueId := m_uniqueId w + 1,
        nextBridge := nextBridge w + 1,
        bridges := (bridges w)(nextBridge w := \<lparr>m_result = False, m_webWorkerBase = Some wb\<rparr>),
        accesses := accesses w @ [Init (nextBridge w) F_result, Init (nextBridge w) F_webWorkerBase],
        mainQueue := mainQueue w @
          [AllowIndexedDBTask (nextBridge w) (commonClient wb) name (check_mode w)]\<rparr>)"
  by (simp add: check_start_def create_def createUniqueId_def check_mode_def op_defs Let_def)

lemma allowIDBFromWorkerThread_eq:
  "allowIDBFromWorkerThread wb name evs w =
     (case runInMode (check_mode w) evs (snd (check_start wb name w)) of
        None \<Rightarrow> None
      | Some (rc, w3) \<Rightarrow>
          (if rc = MessageQueueTerminated then Some (False, cancel (nextBridge w) w3)
           else Some (result (nextBridge w) w3)))"
  by (simp add: allowIDBFromWorkerThread_def check_start_def check_mode_def mode_of_def
      createUniqueId_def create_def Let_def split: option.split)

text \<open>The surroundings of the parked worker touch no bridge; they only queue and flag.\<close>

lemma env_step_eq:
  "env_step e w =
    (case e of
       MainThreadRuns \<Rightarrow> (case mainQueue w of [] \<Rightarrow> w | t # ts \<Rightarrow> run_main_task t (w\<lparr>mainQueue := ts\<rparr>))
     | QueueKilled \<Rightarrow> w\<lparr>killed := True\<rparr>
     | WorkerWakes \<Rightarrow> w)"
  by (cases e) simp_all

lemma env_step_fields:
  "bridges (env_step e w) = bridges w"
  "nextBridge (env_step e w) = nextBridge w"
  "m_uniqueId (env_step e w) = m_uniqueId w"
  "killed (env_step e w) = (killed w \<or> e = QueueKilled)"
  "mainQueue (env_step e w) = (if e = MainThreadRuns then tl (mainQueue w) else mainQueue w)"
  "workerQueue (env_step e w) =
     workerQueue w @ (if e = MainThreadRuns then concat (map (post_of (bridges w)) (take 1 (mainQueue w))) else [])"
  by (cases e; simp add: run_main_task_eq split: list.split)+

lemma fold_env_fields:
  "bridges (fold env_step pre w) = bridges w"
  "nextBridge (fold env_step pre w) = nextBridge w"
  "m_uniqueId (fold env_step pre w) = m_uniqueId w"
  "killed (fold env_step pre w) = (killed w \<or> QueueKilled \<in> set pre)"
  by (induction pre arbitrary: w; auto simp: env_step_fields)+

lemma fold_env_mainQueue:
  "mainQueue (fold env_step pre w) = drop (count_list pre MainThreadRuns) (mainQueue w)"
  by (induction pre arbitrary: w) (auto simp: env_step_fields drop_Suc tl_drop)

lemma fold_env_workerQueue:
  "workerQueue (fold env_step pre w) =
     workerQueue w @ concat (map (post_of (bridges w)) (take (count_list pre MainThreadRuns) (mainQueue w)))"
proof (induction pre arbitrary: w)
  case Nil
  show ?case by simp
next
  case (Cons e pre)
  show ?case
  proof (cases "e = MainThreadRuns")
    case False
    then show ?thesis by (simp add: Cons.IH env_step_fields)
  next
    case True
    show ?thesis
    proof (cases "mainQueue w")
      case Nil
      with True show ?thesis by (simp add: Cons.IH env_step_fields)
    next
      case (Cons t ts)
      with True show ?thesis by (simp add: Cons.IH run_main_task_eq)
    qed
  qed
qed

section \<open>The parked worker\<close>

lemma takeTask_None: "takeTask m q = None \<longleftrightarrow> m \<notin> fst ` set q"
  by (induction q) (auto split: option.splits if_splits)

lemma takeTask_Some: "takeTask m q = Some (t, q') \<Longrightarrow> (m, t) \<in> set q"
  by (induction q arbitrary: t q') (auto split: option.splits if_splits)

lemma takeTask_rest:
  "takeTask m q = Some (t, q') \<Longrightarrow> m' \<noteq> m \<Longrightarrow> filter (\<lambda>p. fst p = m') q' = filter (\<lambda>p. fst p = m') q"
  by (induction q arbitrary: t q') (auto split: option.splits if_splits)

lemma runInMode_wake:
  "runInMode m (WorkerWakes # evs) w = (case wake_up m w of Some r \<Rightarrow> Some r | None \<Rightarrow> runInMode m evs w)"
  by simp

lemma runInMode_env:
  "e \<noteq> WorkerWakes \<Longrightarrow> runInMode m (e # evs) w = runInMode m evs (env_step e w)"
  by (cases e) simp_all

lemma runInMode_decisive:
  "runInMode m evs w = Some x \<Longrightarrow>
   \<exists>pre post. evs = pre @ WorkerWakes # post \<and> wake_up m (fold env_step pre w) = Some x"
proof (induction evs arbitrary: w)
  case Nil
  then show ?case by simp
next
  case (Cons e evs)
  show ?case
  proof (cases "e = WorkerWakes")
    case True
    show ?thesis
    proof (cases "wake_up m w")
      case None
      with Cons.prems True have "runInMode m evs w = Some x" by simp
      from Cons.IH [OF this] obtain pre post where "evs = pre @ WorkerWakes # post"
        and "wake_up m (fold env_step pre w) = Some x"
        by blast
      with True have "e # evs = (e # pre) @ WorkerWakes # post \<and>
          wake_up m (fold env_step (e # pre) w) = Some x"
        by simp
      then show ?thesis by blast
    next
      case (Some r)
      with Cons.prems True have "e # evs = [] @ WorkerWakes # evs \<and>
          wake_up m (fold env_step [] w) = Some x"
        by simp
      then show ?thesis by blast
    qed
  next
    case False
    with Cons.prems have "runInMode m evs (env_step e w) = Some x"
      by (simp add: runInMode_env)
    from Cons.IH [OF this] obtain pre post where "evs = pre @ WorkerWakes # post"
      and "wake_up m (fold env_step pre (env_step e w)) = Some x"
      by blast
    then have "e # evs = (e # pre) @ WorkerWakes # post \<and>
        wake_up m (fold env_step (e # pre) w) = Some x"
      by simp
    then show ?thesis by blast
  qed
qed

lemma runInMode_returns:
  "wake_up m (fold env_step pre w) \<noteq> None \<Longrightarrow>
   \<exists>pre1. set pre1 \<subseteq> set pre \<and> wake_up m (fold env_step pre1 w) \<noteq> None \<and>
     runInMode m (pre @ WorkerWakes # post) w = wake_up m (fold env_step pre1 w)"
proof (induction pre arbitrary: w)
  case Nil
  then obtain r where r: "wake_up m w = Some r" by auto
  have "set [] \<subseteq> set ([]::env_event list) \<and> wake_up m (fold env_step [] w) \<noteq> None \<and>
      runInMode m ([] @ WorkerWakes # post) w = wake_up m (fold env_step [] w)"
    by (simp add: r)
  then show ?case by (rule exI)
next
  case (Cons e pre)
  show ?case
  proof (cases "e = WorkerWakes")
    case True
    show ?thesis
    proof (cases "wake_up m w")
      case None
      from Cons.prems True have "wake_up m (fold env_step pre w) \<noteq> None" by simp
      from Cons.IH [OF this] obtain pre1 where sub: "set pre1 \<subseteq> set pre"
        and ne: "wake_up m (fold env_step pre1 w) \<noteq> None"
        and run: "runInMode m (pre @ WorkerWakes # post) w = wake_up m (fold env_step pre1 w)"
        by blast
      from sub have s: "set pre1 \<subseteq> set (e # pre)" by auto
      from run None True
      have "runInMode m ((e # pre) @ WorkerWakes # post) w = wake_up m (fold env_step pre1 w)"
        by simp
      with s ne show ?thesis by blast
    next
      case (Some r)
      have "set [] \<subseteq> set (e # pre) \<and> wake_up m (fold env_step [] w) \<noteq> None \<and>
          runInMode m ((e # pre) @ WorkerWakes # post) w = wake_up m (fold env_step [] w)"
        by (simp add: True Some)
      then show ?thesis by (rule exI)
    qed
  next
    case False
    from Cons.prems have "wake_up m (fold env_step pre (env_step e w)) \<noteq> None" by simp
    from Cons.IH [OF this] obtain pre1 where sub: "set pre1 \<subseteq> set pre"
      and ne: "wake_up m (fold env_step pre1 (env_step e w)) \<noteq> None"
      and run: "runInMode m (pre @ WorkerWakes # post) (env_step e w) = wake_up m (fold env_step pre1 (env_step e w))"
      by blast
    from sub have s: "set (e # pre1) \<subseteq> set (e # pre)" by auto
    from ne have n: "wake_up m (fold env_step (e # pre1) w) \<noteq> None" by simp
    from run have "runInMode m ((e # pre) @ WorkerWakes # post) w = wake_up m (fold env_step (e # pre1) w)"
      by (simp add: runInMode_env [OF False])
    with s n show ?thesis by blast
  qed
qed

section \<open>One permission check\<close>

lemma parked_killed:
  "killed (fold env_step pre (snd (check_start wb name w))) \<longleftrightarrow> killed w \<or> QueueKilled \<in> set pre"
  by (simp add: fold_env_fields check_start_eq)

lemma parked_workerQueue:
  "workerQueue (fold env_step pre (snd (check_start wb name w))) =
     workerQueue w @
     concat (map (post_of (bridges (snd (check_start wb name w))))
       (take (count_list pre MainThreadRuns)
          (mainQueue w @ [AllowIndexedDBTask (nextBridge w) (commonClient wb) name (check_mode w)])))"
  by (simp add: fold_env_workerQueue) (simp add: check_start_eq)

lemma post_of_ours:
  "post_of (bridges (snd (check_start wb name w)))
     (AllowIndexedDBTask (nextBridge w) (commonClient wb) name (check_mode w)) =
   [(check_mode w, DidComplete (nextBridge w) (answer (commonClient wb) name))]"
  by (simp add: post_of_def check_start_eq)

lemma post_of_mode: "p \<in> set (post_of bs t) \<Longrightarrow> fst p = task_mode t"
  by (auto simp: post_of_def split: option.splits)

lemma parked_only_ours:
  assumes fresh: "mode_unused (check_mode w) w"
    and queued: "(check_mode w, t) \<in> set (workerQueue (fold env_step pre (snd (check_start wb name w))))"
  shows "t = DidComplete (nextBridge w) (answer (commonClient wb) name) \<and>
         length (mainQueue w) < count_list pre MainThreadRuns"
proof -
  let ?ours = "AllowIndexedDBTask (nextBridge w) (commonClient wb) name (check_mode w)"
  let ?bs = "bridges (snd (check_start wb name w))"
  let ?k = "count_list pre MainThreadRuns"
  from fresh have notw: "(check_mode w, t) \<notin> set (workerQueue w)"
    by (force simp: mode_unused_def)
  with queued obtain t' where t': "t' \<in> set (take ?k (mainQueue w @ [?ours]))"
    and p: "(check_mode w, t) \<in> set (post_of ?bs t')"
    by (auto simp: parked_workerQueue)
  from post_of_mode [OF p] have m: "task_mode t' = check_mode w" by simp
  with fresh have notm: "t' \<notin> set (mainQueue w)"
    by (force simp: mode_unused_def)
  have long: "length (mainQueue w) < ?k"
  proof (rule ccontr)
    assume "\<not> length (mainQueue w) < ?k"
    then have "take ?k (mainQueue w @ [?ours]) = take ?k (mainQueue w)" by simp
    with t' have "t' \<in> set (mainQueue w)" by (auto dest: in_set_takeD)
    with notm show False by simp
  qed
  from t' have "t' \<in> set (mainQueue w @ [?ours])" by (rule in_set_takeD)
  with notm have "t' = ?ours" by simp
  with p have "t = DidComplete (nextBridge w) (answer (commonClient wb) name)"
    by (simp add: post_of_ours)
  with long show ?thesis by simp
qed

lemma parked_answered:
  assumes "length (mainQueue w) < count_list pre MainThreadRuns"
  shows "check_mode w \<in> fst ` set (workerQueue (fold env_step pre (snd (check_start wb name w))))"
proof -
  let ?ours = "AllowIndexedDBTask (nextBridge w) (commonClient wb) name (check_mode w)"
  from assms have "take (count_list pre MainThreadRuns) (mainQueue w @ [?ours]) = mainQueue w @ [?ours]"
    by simp
  then show ?thesis
    by (simp add: parked_workerQueue post_of_ours)
qed

text \<open>What the worker parked in \<open>allowIDBFromWorkerThread\<close> finds when it wakes after the
  events \<open>pre\<close>.\<close>

lemma parked_wake_up:
  assumes fresh: "mode_unused (check_mode w) w"
  shows "wake_up (check_mode w) (fold env_step pre (snd (check_start wb name w))) =
     (if killed w \<or> QueueKilled \<in> set pre
      then Some (MessageQueueTerminated, fold env_step pre (snd (check_start wb name w)))
      else if length (mainQueue w) < count_list pre MainThreadRuns
      then Some (MessageQueueMessageReceived,
             didComplete (nextBridge w) (answer (commonClient wb) name)
               ((fold env_step pre (snd (check_start wb name w)))
                  \<lparr>workerQueue := snd (the (takeTask (check_mode w)
                      (workerQueue (fold env_step pre (snd (check_start wb name w))))))\<rparr>))
      else None)"
proof -
  let ?w1 = "fold env_step pre (snd (check_start wb name w))"
  show ?thesis
  proof (cases "killed w \<or> QueueKilled \<in> set pre")
    case True
    then have "killed ?w1" by (simp add: parked_killed)
    with True show ?thesis by (simp add: wake_up_def)
  next
    case False
    then have nk: "\<not> killed ?w1" by (simp add: parked_killed)
    show ?thesis
    proof (cases "takeTask (check_mode w) (workerQueue ?w1)")
      case None
      then have "check_mode w \<notin> fst ` set (workerQueue ?w1)" by (simp add: takeTask_None)
      with parked_answered [of w pre wb name]
      have "\<not> length (mainQueue w) < count_list pre MainThreadRuns" by blast
      with False nk None show ?thesis by (simp add: wake_up_def)
    next
      case (Some tq)
      obtain t q where tq: "tq = (t, q)" by (cases tq)
      with Some have "(check_mode w, t) \<in> set (workerQueue ?w1)" by (simp add: takeTask_Some)
      from parked_only_ours [OF fresh this]
      have "t = DidComplete (nextBridge w) (answer (commonClient wb) name)"
        and "length (mainQueue w) < count_list pre MainThreadRuns" by simp_all
      with False nk Some tq show ?thesis by (simp add: wake_up_def)
    qed
  qed
qed

lemma didComplete_result: "m_result (bridges (didComplete b r w) b) = r"
  by (simp add: didComplete_eq)

lemma check_returned:
  assumes fresh: "mode_unused (check_mode w) w"
    and ret: "allowIDBFromWorkerThread wb name evs w = Some (r, w')"
  shows "r \<longleftrightarrow> answer (commonClient wb) name \<and> \<not> killed w \<and>
     (\<exists>pre post. evs = pre @ WorkerWakes # post \<and> QueueKilled \<notin> set pre \<and>
        length (mainQueue w) < count_list pre MainThreadRuns)"
proof -
  let ?m = "check_mode w" and ?w2 = "snd (check_start wb name w)"
  from ret obtain rc w3 where run: "runInMode ?m evs ?w2 = Some (rc, w3)"
    by (auto simp: allowIDBFromWorkerThread_eq split: option.splits)
  from runInMode_decisive [OF run] obtain pre post where evs: "evs = pre @ WorkerWakes # post"
    and wk: "wake_up ?m (fold env_step pre ?w2) = Some (rc, w3)" by blast
  show ?thesis
  proof (cases "killed w \<or> QueueKilled \<in> set pre")
    case True
    with wk have "rc = MessageQueueTerminated" by (simp add: parked_wake_up [OF fresh])
    with ret run have nr: "\<not> r" by (simp add: allowIDBFromWorkerThread_eq)
    have "\<not> (\<not> killed w \<and> (\<exists>pre' post'. evs = pre' @ WorkerWakes # post' \<and> QueueKilled \<notin> set pre' \<and>
        length (mainQueue w) < count_list pre' MainThreadRuns))"
    proof
      assume a: "\<not> killed w \<and> (\<exists>pre' post'. evs = pre' @ WorkerWakes # post' \<and> QueueKilled \<notin> set pre' \<and>
        length (mainQueue w) < count_list pre' MainThreadRuns)"
      then obtain pre' post' where e': "evs = pre' @ WorkerWakes # post'" and k': "QueueKilled \<notin> set pre'"
        and l': "length (mainQueue w) < count_list pre' MainThreadRuns" by blast
      from a k' l' have "wake_up ?m (fold env_step pre' ?w2) \<noteq> None"
        by (simp add: parked_wake_up [OF fresh])
      from runInMode_returns [OF this, of post'] e' obtain pre1 where sub: "set pre1 \<subseteq> set pre'"
        and r1: "runInMode ?m evs ?w2 = wake_up ?m (fold env_step pre1 ?w2)" by auto
      from sub k' have "QueueKilled \<notin> set pre1" by blast
      with a r1 run have "rc \<noteq> MessageQueueTerminated"
        by (auto simp: parked_wake_up [OF fresh] split: if_splits)
      with \<open>rc = MessageQueueTerminated\<close> show False by simp
    qed
    with nr show ?thesis by blast
  next
    case False
    with wk have long: "length (mainQueue w) < count_list pre MainThreadRuns"
      and rc: "rc = MessageQueueMessageReceived"
      and w3: "m_result (bridges w3 (nextBridge w)) = answer (commonClient wb) name"
      by (auto simp: parked_wake_up [OF fresh] didComplete_result split: if_splits)
    from ret run rc w3 have "r = answer (commonClient wb) name"
      by (auto simp: allowIDBFromWorkerThread_eq result_eq)
    with False evs long show ?thesis by blast
  qed
qed

lemma check_returns:
  assumes fresh: "mode_unused (check_mode w) w"
    and evs: "evs = pre @ WorkerWakes # post"
    and decided: "killed w \<or> QueueKilled \<in> set pre \<or> length (mainQueue w) < count_list pre MainThreadRuns"
  shows "\<exists>r w'. allowIDBFromWorkerThread wb name evs w = Some (r, w')"
proof -
  let ?m = "check_mode w" and ?w2 = "snd (check_start wb name w)"
  from decided have "wake_up ?m (fold env_step pre ?w2) \<noteq> None"
    by (auto simp: parked_wake_up [OF fresh])
  from runInMode_returns [OF this, of post] evs
  have "runInMode ?m evs ?w2 \<noteq> None" by auto
  then show ?thesis
    by (auto simp: allowIDBFromWorkerThread_eq result_eq split: option.splits)
qed

lemma number_small: "n < 10 \<Longrightarrow> number n = [digit n]"
  by (simp add: number.simps)

lemma check_mode_idle: "check_mode idle_world = ''allowIndexedDBMode1''"
  by (simp add: check_mode_def mode_of_def createUniqueId_def idle_world_def allowIndexedDBMode_def
      number_small digit_def)

lemma mode_unused_idle: "mode_unused m idle_world"
  by (simp add: mode_unused_def idle_world_def)

lemma answer_iff: "answer cc name \<longleftrightarrow> (\<exists>c. cc = Some c \<and> c name)"
  by (cases cc) (simp_all add: answer_def)

section \<open>The claims\<close>

text \<open>
  C1. The boolean \<open>allowIDBFromWorkerThread\<close> returns is true only when the common worker
  client was present, its \<open>allowIndexedDB\<close> returned true for the name, and the worker woke
  to the posted completion before its queue was terminated; it is false when the client
  denied, when the client was absent and when the run loop was terminated. First
  conjunct: whenever the call returns, its value is true exactly if the client is present
  and allows the name, the queue was not terminated at the call, and the worker wakes at a
  moment before which the main thread has run the dispatched task (it stands behind the
  tasks already in the main thread's queue) and the queue has not been terminated. Second
  conjunct: the call does return once the worker wakes after the queue was terminated or
  after the main thread has run the task. The hypothesis says that the wait-channel id
  of the call is carried by no task queued before it.
\<close>

theorem allowIDBFromWorkerThread_true_iff:
  assumes "mode_unused (check_mode w) w"
  shows "(\<forall>r w'. allowIDBFromWorkerThread wb name evs w = Some (r, w') \<longrightarrow>
            (r \<longleftrightarrow> (\<exists>c. commonClient wb = Some c \<and> c name) \<and> \<not> killed w \<and>
               (\<exists>pre post. evs = pre @ WorkerWakes # post \<and> QueueKilled \<notin> set pre \<and>
                  length (mainQueue w) < count_list pre MainThreadRuns))) \<and>
         ((\<exists>pre post. evs = pre @ WorkerWakes # post \<and>
             (killed w \<or> QueueKilled \<in> set pre \<or> length (mainQueue w) < count_list pre MainThreadRuns)) \<longrightarrow>
          (\<exists>r w'. allowIDBFromWorkerThread wb name evs w = Some (r, w')))"
proof (intro conjI allI impI)
  fix r w'
  assume "allowIDBFromWorkerThread wb name evs w = Some (r, w')"
  from check_returned [OF assms this]
  show "r \<longleftrightarrow> (\<exists>c. commonClient wb = Some c \<and> c name) \<and> \<not> killed w \<and>
       (\<exists>pre post. evs = pre @ WorkerWakes # post \<and> QueueKilled \<notin> set pre \<and>
          length (mainQueue w) < count_list pre MainThreadRuns)"
    by (simp only: answer_iff)
next
  assume "\<exists>pre post. evs = pre @ WorkerWakes # post \<and>
     (killed w \<or> QueueKilled \<in> set pre \<or> length (mainQueue w) < count_list pre MainThreadRuns)"
  then obtain pre post where "evs = pre @ WorkerWakes # post"
    and "killed w \<or> QueueKilled \<in> set pre \<or> length (mainQueue w) < count_list pre MainThreadRuns"
    by blast
  then show "\<exists>r w'. allowIDBFromWorkerThread wb name evs w = Some (r, w')"
    by (rule check_returns [OF assms])
qed

theorem allowIDBFromWorkerThread_true_iff_witness:
  "mode_unused (check_mode idle_world) idle_world \<and>
   (\<exists>w'. allowIDBFromWorkerThread inbox_client ''inbox'' [WorkerWakes, MainThreadRuns, WorkerWakes] idle_world
      = Some (True, w')) \<and>
   (\<exists>w'. allowIDBFromWorkerThread inbox_client ''inbox'' [MainThreadRuns, QueueKilled, WorkerWakes] idle_world
      = Some (False, w')) \<and>
   (\<exists>w'. allowIDBFromWorkerThread inbox_client ''outbox'' [MainThreadRuns, WorkerWakes] idle_world
      = Some (False, w'))"
proof -
  have fresh: "mode_unused (check_mode idle_world) idle_world" by (rule mode_unused_idle)
  note c1 = allowIDBFromWorkerThread_true_iff [OF fresh]
  have idle: "\<not> killed idle_world" "mainQueue idle_world = []" by (simp_all add: idle_world_def)
  have cc: "commonClient inbox_client = Some (\<lambda>n. n = ''inbox'')" by (simp add: inbox_client_def)
  have d1: "[WorkerWakes, MainThreadRuns, WorkerWakes] = [WorkerWakes, MainThreadRuns] @ WorkerWakes # [] \<and>
      QueueKilled \<notin> set [WorkerWakes, MainThreadRuns] \<and>
      length (mainQueue idle_world) < count_list [WorkerWakes, MainThreadRuns] MainThreadRuns"
    by (simp add: idle)
  then have e1: "\<exists>pre post. [WorkerWakes, MainThreadRuns, WorkerWakes] = pre @ WorkerWakes # post \<and> QueueKilled \<notin> set pre \<and>
      length (mainQueue idle_world) < count_list pre MainThreadRuns" by blast
  then have "\<exists>pre post. [WorkerWakes, MainThreadRuns, WorkerWakes] = pre @ WorkerWakes # post \<and>
      (killed idle_world \<or> QueueKilled \<in> set pre \<or> length (mainQueue idle_world) < count_list pre MainThreadRuns)"
    by blast
  with c1 [of inbox_client "''inbox''" "[WorkerWakes, MainThreadRuns, WorkerWakes]"]
  obtain r1 w1 where r1: "allowIDBFromWorkerThread inbox_client ''inbox'' [WorkerWakes, MainThreadRuns, WorkerWakes] idle_world
      = Some (r1, w1)" by blast
  with c1 [of inbox_client "''inbox''" "[WorkerWakes, MainThreadRuns, WorkerWakes]"] e1 idle cc
  have "r1" by simp
  with r1 have one: "\<exists>w'. allowIDBFromWorkerThread inbox_client ''inbox'' [WorkerWakes, MainThreadRuns, WorkerWakes] idle_world
      = Some (True, w')" by simp
  have "[MainThreadRuns, QueueKilled, WorkerWakes] = [MainThreadRuns, QueueKilled] @ WorkerWakes # [] \<and>
      (killed idle_world \<or> QueueKilled \<in> set [MainThreadRuns, QueueKilled] \<or>
       length (mainQueue idle_world) < count_list [MainThreadRuns, QueueKilled] MainThreadRuns)"
    by simp
  then have "\<exists>pre post. [MainThreadRuns, QueueKilled, WorkerWakes] = pre @ WorkerWakes # post \<and>
      (killed idle_world \<or> QueueKilled \<in> set pre \<or> length (mainQueue idle_world) < count_list pre MainThreadRuns)"
    by blast
  with c1 [of inbox_client "''inbox''" "[MainThreadRuns, QueueKilled, WorkerWakes]"]
  obtain r2 w2 where r2: "allowIDBFromWorkerThread inbox_client ''inbox'' [MainThreadRuns, QueueKilled, WorkerWakes] idle_world
      = Some (r2, w2)" by blast
  have "\<not> (\<exists>pre post. [MainThreadRuns, QueueKilled, WorkerWakes] = pre @ WorkerWakes # post \<and> QueueKilled \<notin> set pre \<and>
      length (mainQueue idle_world) < count_list pre MainThreadRuns)"
    by (auto simp: Cons_eq_append_conv)
  with c1 [of inbox_client "''inbox''" "[MainThreadRuns, QueueKilled, WorkerWakes]"] r2
  have "\<not> r2" by blast
  with r2 have two: "\<exists>w'. allowIDBFromWorkerThread inbox_client ''inbox'' [MainThreadRuns, QueueKilled, WorkerWakes] idle_world
      = Some (False, w')" by simp
  have "[MainThreadRuns, WorkerWakes] = [MainThreadRuns] @ WorkerWakes # [] \<and>
      (killed idle_world \<or> QueueKilled \<in> set [MainThreadRuns] \<or>
       length (mainQueue idle_world) < count_list [MainThreadRuns] MainThreadRuns)"
    by (simp add: idle)
  then have "\<exists>pre post. [MainThreadRuns, WorkerWakes] = pre @ WorkerWakes # post \<and>
      (killed idle_world \<or> QueueKilled \<in> set pre \<or> length (mainQueue idle_world) < count_list pre MainThreadRuns)"
    by blast
  with c1 [of inbox_client "''outbox''" "[MainThreadRuns, WorkerWakes]"]
  obtain r3 w3 where r3: "allowIDBFromWorkerThread inbox_client ''outbox'' [MainThreadRuns, WorkerWakes] idle_world
      = Some (r3, w3)" by blast
  with c1 [of inbox_client "''outbox''" "[MainThreadRuns, WorkerWakes]"] cc
  have "\<not> r3" by auto
  with r3 have three: "\<exists>w'. allowIDBFromWorkerThread inbox_client ''outbox'' [MainThreadRuns, WorkerWakes] idle_world
      = Some (False, w')" by simp
  from fresh one two three show ?thesis by blast
qed

lemma made_append: "accesses w' = accesses w @ tr \<Longrightarrow> made w w' = tr"
  by (simp add: made_def)

lemma env_step_result_reads: "result_reads b (env_step e w) = result_reads b w"
  by (cases e) (simp_all add: result_reads_def run_main_task_eq split: list.split)

lemma fold_env_result_reads: "result_reads b (fold env_step pre w) = result_reads b w"
  by (induction pre arbitrary: w) (simp_all add: env_step_result_reads)

lemma wake_up_result_reads:
  "wake_up m w = Some (rc, w') \<Longrightarrow> result_reads b w' = result_reads b w"
proof -
  assume a: "wake_up m w = Some (rc, w')"
  show ?thesis
  proof (cases "killed w")
    case True
    with a show ?thesis by (simp add: wake_up_def)
  next
    case False
    with a obtain t q where "w' = performTask t (w\<lparr>workerQueue := q\<rparr>)"
      by (auto simp: wake_up_def split: option.splits)
    then show ?thesis by (cases t) (simp add: didComplete_eq result_reads_def)
  qed
qed

lemma runInMode_result_reads:
  assumes "runInMode m evs w = Some (rc, w')"
  shows "result_reads b w' = result_reads b w"
proof -
  from runInMode_decisive [OF assms] obtain pre post
    where "wake_up m (fold env_step pre w) = Some (rc, w')" by blast
  from wake_up_result_reads [OF this] show ?thesis by (simp add: fold_env_result_reads)
qed

lemma check_start_result_reads: "result_reads b (snd (check_start wb name w)) = result_reads b w"
  by (simp add: check_start_eq result_reads_def)

lemma check_returns_iff:
  assumes fresh: "mode_unused (check_mode w) w"
  shows "(\<exists>r w'. allowIDBFromWorkerThread wb name evs w = Some (r, w')) \<longleftrightarrow>
     (\<exists>pre post. evs = pre @ WorkerWakes # post \<and>
        (killed w \<or> QueueKilled \<in> set pre \<or> length (mainQueue w) < count_list pre MainThreadRuns))"
proof
  assume "\<exists>r w'. allowIDBFromWorkerThread wb name evs w = Some (r, w')"
  then obtain x where "runInMode (check_mode w) evs (snd (check_start wb name w)) = Some x"
    by (auto simp: allowIDBFromWorkerThread_eq split: option.splits)
  from runInMode_decisive [OF this] obtain pre post where evs: "evs = pre @ WorkerWakes # post"
    and wk: "wake_up (check_mode w) (fold env_step pre (snd (check_start wb name w))) = Some x" by blast
  from wk have "killed w \<or> QueueKilled \<in> set pre \<or> length (mainQueue w) < count_list pre MainThreadRuns"
    by (auto simp: parked_wake_up [OF fresh] split: if_splits)
  with evs show "\<exists>pre post. evs = pre @ WorkerWakes # post \<and>
        (killed w \<or> QueueKilled \<in> set pre \<or> length (mainQueue w) < count_list pre MainThreadRuns)"
    by blast
next
  assume "\<exists>pre post. evs = pre @ WorkerWakes # post \<and>
        (killed w \<or> QueueKilled \<in> set pre \<or> length (mainQueue w) < count_list pre MainThreadRuns)"
  then obtain pre post where "evs = pre @ WorkerWakes # post"
    and "killed w \<or> QueueKilled \<in> set pre \<or> length (mainQueue w) < count_list pre MainThreadRuns"
    by blast
  then show "\<exists>r w'. allowIDBFromWorkerThread wb name evs w = Some (r, w')"
    by (rule check_returns [OF fresh])
qed

lemma check_idle_returns:
  "\<exists>r w'. allowIDBFromWorkerThread wb name [MainThreadRuns, WorkerWakes] idle_world = Some (r, w')"
proof -
  have "[MainThreadRuns, WorkerWakes] = [MainThreadRuns] @ WorkerWakes # [] \<and>
      (killed idle_world \<or> QueueKilled \<in> set [MainThreadRuns] \<or>
       length (mainQueue idle_world) < count_list [MainThreadRuns] MainThreadRuns)"
    by (simp add: idle_world_def)
  then have "\<exists>pre post. [MainThreadRuns, WorkerWakes] = pre @ WorkerWakes # post \<and>
      (killed idle_world \<or> QueueKilled \<in> set pre \<or> length (mainQueue idle_world) < count_list pre MainThreadRuns)"
    by blast
  then show ?thesis by (simp add: check_returns_iff [OF mode_unused_idle])
qed

lemma check_idle_value:
  "\<exists>w'. allowIDBFromWorkerThread wb name [MainThreadRuns, WorkerWakes] idle_world =
      Some (answer (commonClient wb) name, w')"
proof -
  from check_idle_returns obtain r w'
    where r: "allowIDBFromWorkerThread wb name [MainThreadRuns, WorkerWakes] idle_world = Some (r, w')"
    by blast
  have "[MainThreadRuns, WorkerWakes] = [MainThreadRuns] @ WorkerWakes # [] \<and>
      QueueKilled \<notin> set [MainThreadRuns] \<and>
      length (mainQueue idle_world) < count_list [MainThreadRuns] MainThreadRuns"
    by (simp add: idle_world_def)
  then have "\<exists>pre post. [MainThreadRuns, WorkerWakes] = pre @ WorkerWakes # post \<and>
      QueueKilled \<notin> set pre \<and> length (mainQueue idle_world) < count_list pre MainThreadRuns"
    by blast
  with check_returned [OF mode_unused_idle r] have "r = answer (commonClient wb) name"
    by (simp add: idle_world_def)
  with r show ?thesis by blast
qed

text \<open>
  C2. When \<open>runInMode\<close> returns \<open>MessageQueueTerminated\<close>, \<open>allowIDBFromWorkerThread\<close>
  calls \<open>cancel\<close> on the bridge and returns false, and does not read the bridge's result:
  the returned world is the world \<open>runInMode\<close> left with \<open>cancel\<close> applied to the bridge of
  the call, the accesses made after \<open>runInMode\<close> are the three of \<open>cancel\<close>, the
  back-reference is cleared, and the number of reads of any bridge's result is what it was
  before the call.
\<close>

theorem terminated_cancels_and_returns_false:
  assumes "runInMode (check_mode w) evs (snd (check_start wb name w)) = Some (MessageQueueTerminated, w3)"
  shows "allowIDBFromWorkerThread wb name evs w = Some (False, cancel (nextBridge w) w3) \<and>
     made w3 (cancel (nextBridge w) w3) =
       [Acquire (nextBridge w), Write (nextBridge w) F_webWorkerBase, Release (nextBridge w)] \<and>
     m_webWorkerBase (bridges (cancel (nextBridge w) w3) (nextBridge w)) = None \<and>
     result_reads b (cancel (nextBridge w) w3) = result_reads b w"
proof -
  have ret: "allowIDBFromWorkerThread wb name evs w = Some (False, cancel (nextBridge w) w3)"
    using assms by (simp add: allowIDBFromWorkerThread_eq)
  have tr: "made w3 (cancel (nextBridge w) w3) =
       [Acquire (nextBridge w), Write (nextBridge w) F_webWorkerBase, Release (nextBridge w)]"
    by (rule made_append) (simp add: cancel_eq)
  have cleared: "m_webWorkerBase (bridges (cancel (nextBridge w) w3) (nextBridge w)) = None"
    by (simp add: cancel_eq)
  have "result_reads b (cancel (nextBridge w) w3) = result_reads b w3"
    by (simp add: cancel_eq result_reads_def)
  also have "\<dots> = result_reads b (snd (check_start wb name w))"
    by (rule runInMode_result_reads [OF assms])
  also have "\<dots> = result_reads b w"
    by (rule check_start_result_reads)
  finally have "result_reads b (cancel (nextBridge w) w3) = result_reads b w" .
  with ret tr cleared show ?thesis by simp
qed

theorem terminated_cancels_and_returns_false_witness:
  "runInMode (check_mode idle_world) [QueueKilled, WorkerWakes] (snd (check_start inbox_client ''inbox'' idle_world))
     = Some (MessageQueueTerminated, (snd (check_start inbox_client ''inbox'' idle_world))\<lparr>killed := True\<rparr>) \<and>
   allowIDBFromWorkerThread inbox_client ''inbox'' [QueueKilled, WorkerWakes] idle_world
     = Some (False, cancel 0 ((snd (check_start inbox_client ''inbox'' idle_world))\<lparr>killed := True\<rparr>)) \<and>
   result_reads 0 (cancel 0 ((snd (check_start inbox_client ''inbox'' idle_world))\<lparr>killed := True\<rparr>)) = 0"
proof -
  have h: "runInMode (check_mode idle_world) [QueueKilled, WorkerWakes] (snd (check_start inbox_client ''inbox'' idle_world))
     = Some (MessageQueueTerminated, (snd (check_start inbox_client ''inbox'' idle_world))\<lparr>killed := True\<rparr>)"
    by (simp add: wake_up_def)
  have n: "nextBridge idle_world = 0" "result_reads 0 idle_world = 0"
    by (simp_all add: idle_world_def result_reads_def)
  from terminated_cancels_and_returns_false [OF h, of 0] h n show ?thesis by simp
qed

text \<open>
  C3, as stated, fails: with the common worker client absent, the constructor still
  dispatches \<open>allowIndexedDBTask\<close> to the main thread, and the call waits for a response.
  On the idle system the main thread's queue holds the task after construction, and when
  only the worker wakes and nothing has answered, the call has not returned.
\<close>

theorem absent_client_counterexample:
  "mainQueue (snd (create no_client ''allowIndexedDBMode1'' ''inbox'' (snd (createUniqueId idle_world))))
     = [AllowIndexedDBTask 0 None ''inbox'' ''allowIndexedDBMode1''] \<and>
   allowIDBFromWorkerThread no_client ''inbox'' [WorkerWakes] idle_world = None"
proof -
  have a: "mainQueue (snd (create no_client ''allowIndexedDBMode1'' ''inbox'' (snd (createUniqueId idle_world))))
     = [AllowIndexedDBTask 0 None ''inbox'' ''allowIndexedDBMode1'']"
    by (simp add: create_def createUniqueId_def idle_world_def no_client_def op_defs Let_def)
  have "\<not> (\<exists>pre post. [WorkerWakes] = pre @ WorkerWakes # post \<and>
        (killed idle_world \<or> QueueKilled \<in> set pre \<or> length (mainQueue idle_world) < count_list pre MainThreadRuns))"
    by (auto simp: Cons_eq_append_conv idle_world_def)
  then have "\<not> (\<exists>r w'. allowIDBFromWorkerThread no_client ''inbox'' [WorkerWakes] idle_world = Some (r, w'))"
    by (simp add: check_returns_iff [OF mode_unused_idle])
  then have b: "allowIDBFromWorkerThread no_client ''inbox'' [WorkerWakes] idle_world = None"
    by (cases "allowIDBFromWorkerThread no_client ''inbox'' [WorkerWakes] idle_world") auto
  from a b show ?thesis by simp
qed

text \<open>
  C3, amended. With the common worker client absent, \<open>allowIDBFromWorkerThread\<close> never returns
  true. The evaluation task is dispatched to the main thread all the same (carrying the
  null client), and the call returns exactly when the worker wakes after the main thread
  has run that task or after the queue was terminated.
\<close>

theorem absent_client_dispatches_and_denies:
  assumes "commonClient wb = None" and "mode_unused (check_mode w) w"
  shows "mainQueue (snd (check_start wb name w)) =
       mainQueue w @ [AllowIndexedDBTask (nextBridge w) None name (check_mode w)] \<and>
     (\<forall>r w'. allowIDBFromWorkerThread wb name evs w = Some (r, w') \<longrightarrow> \<not> r) \<and>
     ((\<exists>r w'. allowIDBFromWorkerThread wb name evs w = Some (r, w')) \<longleftrightarrow>
      (\<exists>pre post. evs = pre @ WorkerWakes # post \<and>
         (killed w \<or> QueueKilled \<in> set pre \<or> length (mainQueue w) < count_list pre MainThreadRuns)))"
proof -
  have a: "mainQueue (snd (check_start wb name w)) =
       mainQueue w @ [AllowIndexedDBTask (nextBridge w) None name (check_mode w)]"
    using assms(1) by (simp add: check_start_eq)
  have b: "\<not> r" if "allowIDBFromWorkerThread wb name evs w = Some (r, w')" for r w'
    using check_returned [OF assms(2) that] assms(1) by (simp add: answer_def)
  from a b check_returns_iff [OF assms(2), of wb name evs] show ?thesis by blast
qed

theorem absent_client_dispatches_and_denies_witness:
  "commonClient no_client = None \<and> mode_unused (check_mode idle_world) idle_world \<and>
   mainQueue (snd (check_start no_client ''inbox'' idle_world)) =
     [AllowIndexedDBTask 0 None ''inbox'' ''allowIndexedDBMode1''] \<and>
   (\<exists>w'. allowIDBFromWorkerThread no_client ''inbox'' [MainThreadRuns, WorkerWakes] idle_world = Some (False, w'))"
proof -
  have c: "commonClient no_client = None" by (simp add: no_client_def)
  note t = absent_client_dispatches_and_denies [OF c mode_unused_idle, of "''inbox''" "[MainThreadRuns, WorkerWakes]"]
  have i: "mainQueue idle_world = []" "nextBridge idle_world = 0" by (simp_all add: idle_world_def)
  from t have q: "mainQueue (snd (check_start no_client ''inbox'' idle_world)) =
     [AllowIndexedDBTask 0 None ''inbox'' ''allowIndexedDBMode1'']"
    by (simp add: i check_mode_idle)
  have "[MainThreadRuns, WorkerWakes] = [MainThreadRuns] @ WorkerWakes # [] \<and>
      (killed idle_world \<or> QueueKilled \<in> set [MainThreadRuns] \<or>
       length (mainQueue idle_world) < count_list [MainThreadRuns] MainThreadRuns)"
    by (simp add: i)
  then have "\<exists>pre post. [MainThreadRuns, WorkerWakes] = pre @ WorkerWakes # post \<and>
      (killed idle_world \<or> QueueKilled \<in> set pre \<or> length (mainQueue idle_world) < count_list pre MainThreadRuns)"
    by blast
  with t obtain r w' where r: "allowIDBFromWorkerThread no_client ''inbox'' [MainThreadRuns, WorkerWakes] idle_world = Some (r, w')"
    by blast
  with t have "\<not> r" by blast
  with r have "\<exists>w'. allowIDBFromWorkerThread no_client ''inbox'' [MainThreadRuns, WorkerWakes] idle_world = Some (False, w')"
    by simp
  with c q mode_unused_idle show ?thesis by blast
qed





lemma backref_cancel: "m_webWorkerBase (bridges (cancel b w) b) = None"
  by (simp add: cancel_eq)

lemma apply_op_cancelled:
  "m_webWorkerBase (bridges w b) = None \<Longrightarrow>
   m_webWorkerBase (bridges (apply_op b op w) b) = None \<and>
   workerQueue (apply_op b op w) = workerQueue w \<and>
   m_result (bridges (apply_op b op w) b) = m_result (bridges w b)"
  by (cases op) (simp_all add: cancel_eq signalCompleted_eq)

lemma apply_ops_cancelled:
  "m_webWorkerBase (bridges w b) = None \<Longrightarrow>
   m_webWorkerBase (bridges (fold (apply_op b) ops w) b) = None \<and>
   workerQueue (fold (apply_op b) ops w) = workerQueue w \<and>
   m_result (bridges (fold (apply_op b) ops w) b) = m_result (bridges w b)"
proof (induction ops arbitrary: w)
  case Nil
  then show ?case by simp
next
  case (Cons op ops)
  from apply_op_cancelled [OF Cons.prems, of op]
  have step: "m_webWorkerBase (bridges (apply_op b op w) b) = None"
    and keep: "workerQueue (apply_op b op w) = workerQueue w"
      "m_result (bridges (apply_op b op w) b) = m_result (bridges w b)"
    by simp_all
  from Cons.IH [OF step] keep show ?case by simp
qed

text \<open>
  C5. Once \<open>cancel\<close> has cleared the back-reference under the mutex, no completion is
  delivered: a later \<open>signalCompleted\<close> posts no task, and so does any later sequence of
  \<open>cancel\<close> and \<open>signalCompleted\<close> calls on the bridge; the worker's queue stays as \<open>cancel\<close>
  left it, the result slot keeps its value and the back-reference stays cleared.
\<close>

theorem no_completion_after_cancel:
  "workerQueue (signalCompleted b r mode (cancel b w)) = workerQueue (cancel b w) \<and>
   workerQueue (fold (apply_op b) ops (cancel b w)) = workerQueue (cancel b w) \<and>
   workerQueue (cancel b w) = workerQueue w \<and>
   m_result (bridges (fold (apply_op b) ops (cancel b w)) b) = m_result (bridges w b) \<and>
   m_webWorkerBase (bridges (fold (apply_op b) ops (cancel b w)) b) = None"
proof -
  have c: "m_webWorkerBase (bridges (cancel b w) b) = None" by (rule backref_cancel)
  have r: "m_result (bridges (cancel b w) b) = m_result (bridges w b)"
    and q: "workerQueue (cancel b w) = workerQueue w" by (simp_all add: cancel_eq)
  have one: "workerQueue (signalCompleted b r mode (cancel b w)) = workerQueue (cancel b w)"
    using apply_op_cancelled [OF c, of "SignalCompleted r mode"] by simp
  from apply_ops_cancelled [OF c, of ops] one r q show ?thesis by simp
qed

lemma program_state_cancel:
  "program_state (cancel b w) =
     ((bridges w)(b := (bridges w b)\<lparr>m_webWorkerBase := None\<rparr>), nextBridge w, mainQueue w,
      workerQueue w, killed w, m_uniqueId w)"
  by (simp add: program_state_def cancel_eq)

lemma program_state_cancel_cong:
  "program_state u = program_state v \<Longrightarrow> program_state (cancel b u) = program_state (cancel b v)"
  by (simp add: program_state_cancel) (simp add: program_state_def)

lemma program_state_cancel_twice:
  "program_state (cancel b (cancel b w)) = program_state (cancel b w)"
  by (simp add: program_state_cancel) (simp add: cancel_eq)

text \<open>
  C8. \<open>cancel\<close> is idempotent: cancelling twice, or any number of times, leaves the program
  in the state one \<open>cancel\<close> leaves it in (only the record of accesses grows), and that state
  is the state before with the back-reference of the bridge cleared and nothing else
  changed.
\<close>

theorem cancel_idempotent:
  "program_state (cancel b (cancel b w)) = program_state (cancel b w) \<and>
   program_state ((cancel b ^^ Suc n) w) = program_state (cancel b w) \<and>
   program_state (cancel b w) =
     ((bridges w)(b := (bridges w b)\<lparr>m_webWorkerBase := None\<rparr>), nextBridge w, mainQueue w,
      workerQueue w, killed w, m_uniqueId w) \<and>
   m_result (bridges (cancel b w) b) = m_result (bridges w b)"
proof -
  have many: "program_state ((cancel b ^^ Suc n) w) = program_state (cancel b w)"
  proof (induction n)
    case 0
    show ?case by simp
  next
    case (Suc n)
    have "program_state ((cancel b ^^ Suc (Suc n)) w) = program_state (cancel b ((cancel b ^^ Suc n) w))"
      by simp
    also have "\<dots> = program_state (cancel b (cancel b w))"
      by (rule program_state_cancel_cong) (rule Suc.IH)
    also have "\<dots> = program_state (cancel b w)"
      by (rule program_state_cancel_twice)
    finally show ?case .
  qed
  have r: "m_result (bridges (cancel b w) b) = m_result (bridges w b)" by (simp add: cancel_eq)
  from many program_state_cancel_twice [of b w] program_state_cancel [of b w] r show ?thesis by simp
qed

lemma openFromWorker_called:
  assumes "openFromWorker True wb name origin dir evs w = Some (effs, w')"
  shows "\<exists>r. allowIDBFromWorkerThread wb name evs w = Some (r, w')"
proof (cases "allowIDBFromWorkerThread wb name evs w")
  case None
  with assms show ?thesis by (simp add: openFromWorker_def)
next
  case (Some p)
  obtain r v where p: "p = (r, v)" by (cases p)
  with assms Some have "v = w'" by (cases r) (simp_all add: openFromWorker_def)
  with Some p show ?thesis by simp
qed

text \<open>
  C9. In \<open>open\<close>, \<open>deleteDatabase\<close> and \<open>getDatabaseNames\<close>, when the web view's permission
  client is null, no permission is asked and the call goes to the underlying factory as if
  allowed. The worker path has the opposite polarity: with the common worker client
  absent, \<open>openFromWorker\<close> reports the denial and does not call the factory.
\<close>

theorem null_permission_client_allows:
  "getDatabaseNames None origin fr dir = [FactoryGetDatabaseNames origin (Some fr) dir] \<and>
   open_frame None name origin fr dir = [FactoryOpen name origin (Some fr) dir] \<and>
   deleteDatabase None name origin fr dir = [FactoryDeleteDatabase name origin (Some fr) dir] \<and>
   (commonClient wb = None \<and> mode_unused (check_mode w) w \<and>
    openFromWorker True wb name origin dir evs w = Some (effs, w') \<longrightarrow>
      effs = [OnError 0 ''The user denied permission to access the database.''])"
proof (intro conjI impI)
  show "getDatabaseNames None origin fr dir = [FactoryGetDatabaseNames origin (Some fr) dir]"
    by (simp add: getDatabaseNames_def)
  show "open_frame None name origin fr dir = [FactoryOpen name origin (Some fr) dir]"
    by (simp add: open_frame_def)
  show "deleteDatabase None name origin fr dir = [FactoryDeleteDatabase name origin (Some fr) dir]"
    by (simp add: deleteDatabase_def)
next
  assume a: "commonClient wb = None \<and> mode_unused (check_mode w) w \<and>
    openFromWorker True wb name origin dir evs w = Some (effs, w')"
  then have c: "commonClient wb = None" and f: "mode_unused (check_mode w) w"
    and o: "openFromWorker True wb name origin dir evs w = Some (effs, w')"
    by simp_all
  from openFromWorker_called [OF o] obtain r
    where r: "allowIDBFromWorkerThread wb name evs w = Some (r, w')" ..
  from check_returned [OF f r] c have "\<not> r" by (simp add: answer_def)
  with o r show "effs = [OnError 0 ''The user denied permission to access the database.'']"
    by (simp add: openFromWorker_def denied_message_def)
qed

theorem null_permission_client_allows_witness:
  "commonClient no_client = None \<and> mode_unused (check_mode idle_world) idle_world \<and>
   (\<exists>w'. openFromWorker True no_client ''inbox'' ''origin'' ''dir'' [MainThreadRuns, WorkerWakes] idle_world =
      Some ([OnError 0 ''The user denied permission to access the database.''], w')) \<and>
   open_frame None ''inbox'' ''origin'' 7 ''dir'' = [FactoryOpen ''inbox'' ''origin'' (Some 7) ''dir'']"
proof -
  have c: "commonClient no_client = None" by (simp add: no_client_def)
  from check_idle_returns [of no_client "''inbox''"] obtain r w'
    where "allowIDBFromWorkerThread no_client ''inbox'' [MainThreadRuns, WorkerWakes] idle_world = Some (r, w')"
    by blast
  then have "\<exists>effs. openFromWorker True no_client ''inbox'' ''origin'' ''dir'' [MainThreadRuns, WorkerWakes] idle_world =
      Some (effs, w')"
    by (cases r) (simp_all add: openFromWorker_def)
  then obtain effs where o: "openFromWorker True no_client ''inbox'' ''origin'' ''dir'' [MainThreadRuns, WorkerWakes] idle_world =
      Some (effs, w')" ..
  note t = null_permission_client_allows [of "''origin''" 7 "''dir''" "''inbox''" no_client idle_world "[MainThreadRuns, WorkerWakes]" effs w']
  from t have fr: "open_frame None ''inbox'' ''origin'' 7 ''dir'' = [FactoryOpen ''inbox'' ''origin'' (Some 7) ''dir'']"
    by (rule conjunct1 [OF conjunct2])
  from t have "commonClient no_client = None \<and> mode_unused (check_mode idle_world) idle_world \<and>
      openFromWorker True no_client ''inbox'' ''origin'' ''dir'' [MainThreadRuns, WorkerWakes] idle_world = Some (effs, w') \<longrightarrow>
      effs = [OnError 0 ''The user denied permission to access the database.'']"
    by (rule conjunct2 [OF conjunct2 [OF conjunct2]])
  with c mode_unused_idle o
  have "effs = [OnError 0 ''The user denied permission to access the database.'']" by (simp del: One_nat_def)
  with o have "\<exists>w'. openFromWorker True no_client ''inbox'' ''origin'' ''dir'' [MainThreadRuns, WorkerWakes] idle_world =
      Some ([OnError 0 ''The user denied permission to access the database.''], w')"
    by (simp del: One_nat_def) 
  with c mode_unused_idle fr show ?thesis by (simp only: simp_thms)
qed

text \<open>
  C10. In \<open>openFromWorker\<close> (compiled with workers enabled) the permission outcome determines
  the effect: when \<open>allowIDBFromWorkerThread\<close> returns false, \<open>onError\<close> is called with the
  message "The user denied permission to access the database." and the factory's \<open>open\<close> is
  not called; when it returns true, the factory's \<open>open\<close> is called, with the null frame,
  and \<open>onError\<close> is not.
\<close>

theorem openFromWorker_effect:
  "allowIDBFromWorkerThread wb name evs w = Some (allowed, w') \<Longrightarrow>
   openFromWorker True wb name origin dir evs w =
     Some (if allowed then [FactoryOpen name origin None dir]
           else [OnError 0 ''The user denied permission to access the database.''], w')"
  by (simp add: openFromWorker_def denied_message_def)

theorem openFromWorker_effect_witness:
  "(\<exists>w'. allowIDBFromWorkerThread inbox_client ''inbox'' [MainThreadRuns, WorkerWakes] idle_world = Some (True, w') \<and>
      openFromWorker True inbox_client ''inbox'' ''origin'' ''dir'' [MainThreadRuns, WorkerWakes] idle_world =
        Some ([FactoryOpen ''inbox'' ''origin'' None ''dir''], w')) \<and>
   (\<exists>w'. allowIDBFromWorkerThread inbox_client ''outbox'' [MainThreadRuns, WorkerWakes] idle_world = Some (False, w') \<and>
      openFromWorker True inbox_client ''outbox'' ''origin'' ''dir'' [MainThreadRuns, WorkerWakes] idle_world =
        Some ([OnError 0 ''The user denied permission to access the database.''], w'))"
proof -
  from check_idle_value [of inbox_client "''inbox''"] obtain w1
    where a1: "allowIDBFromWorkerThread inbox_client ''inbox'' [MainThreadRuns, WorkerWakes] idle_world = Some (True, w1)"
    by (auto simp: inbox_client_def answer_def)
  from check_idle_value [of inbox_client "''outbox''"] obtain w2
    where a2: "allowIDBFromWorkerThread inbox_client ''outbox'' [MainThreadRuns, WorkerWakes] idle_world = Some (False, w2)"
    by (auto simp: inbox_client_def answer_def)
  from openFromWorker_effect [OF a1, of "''origin''" "''dir''"] a1
  have one: "\<exists>w'. allowIDBFromWorkerThread inbox_client ''inbox'' [MainThreadRuns, WorkerWakes] idle_world = Some (True, w') \<and>
      openFromWorker True inbox_client ''inbox'' ''origin'' ''dir'' [MainThreadRuns, WorkerWakes] idle_world =
        Some ([FactoryOpen ''inbox'' ''origin'' None ''dir''], w')"
    by simp
  from openFromWorker_effect [OF a2, of "''origin''" "''dir''"] a2
  have two: "\<exists>w'. allowIDBFromWorkerThread inbox_client ''outbox'' [MainThreadRuns, WorkerWakes] idle_world = Some (False, w') \<and>
      openFromWorker True inbox_client ''outbox'' ''origin'' ''dir'' [MainThreadRuns, WorkerWakes] idle_world =
        Some ([OnError 0 ''The user denied permission to access the database.''], w')"
    by simp
  from one two show ?thesis by (rule conjI)
qed

lemma digit_inj: "d < 10 \<Longrightarrow> e < 10 \<Longrightarrow> digit d = digit e \<Longrightarrow> d = e"
proof -
  assume d: "d < 10" and e: "e < 10" and eq: "digit d = digit e"
  from d have dc: "d = 0 \<or> d = 1 \<or> d = 2 \<or> d = 3 \<or> d = 4 \<or> d = 5 \<or> d = 6 \<or> d = 7 \<or> d = 8 \<or> d = 9"
    by arith
  from e have ec: "e = 0 \<or> e = 1 \<or> e = 2 \<or> e = 3 \<or> e = 4 \<or> e = 5 \<or> e = 6 \<or> e = 7 \<or> e = 8 \<or> e = 9"
    by arith
  from dc ec eq show ?thesis
    by (elim disjE) (simp_all add: digit_def)
qed

lemma number_not_Nil: "number n \<noteq> []"
  by (subst number.simps) simp

lemma number_last: "last (number n) = digit (n mod 10)"
  by (subst number.simps) simp

lemma number_butlast: "butlast (number n) = (if n < 10 then [] else number (n div 10))"
  by (subst number.simps) (simp add: butlast_append)

lemma number_inj: "number n = number m \<Longrightarrow> n = m"
proof (induction n arbitrary: m rule: less_induct)
  case (less n)
  from less.prems have "last (number n) = last (number m)" by simp
  then have "digit (n mod 10) = digit (m mod 10)" by (simp add: number_last)
  then have lo: "n mod 10 = m mod 10" by (rule digit_inj [rotated 2]) simp_all
  from less.prems have bl: "butlast (number n) = butlast (number m)" by simp
  show ?case
  proof (cases "n < 10")
    case True
    with bl have "m < 10"
      using number_not_Nil [of "m div 10"] by (auto simp: number_butlast split: if_splits)
    with True lo show ?thesis by simp
  next
    case False
    with bl have m: "\<not> m < 10" and eq: "number (n div 10) = number (m div 10)"
      using number_not_Nil [of "n div 10"] by (auto simp: number_butlast split: if_splits)
    from False have "n div 10 < n" by simp
    from less.IH [OF this eq] have "n div 10 = m div 10" .
    with lo show ?thesis by (metis div_mult_mod_eq)
  qed
qed

lemma mode_of_inj: "mode_of a = mode_of b \<Longrightarrow> a = b"
  by (simp add: mode_of_def number_inj)

lemma check_mode_eq: "check_mode w = mode_of (m_uniqueId w + 1)"
  by (simp add: check_mode_def createUniqueId_def)

lemma check_mode_distinct: "m_uniqueId w \<noteq> m_uniqueId v \<Longrightarrow> check_mode w \<noteq> check_mode v"
  by (auto simp: check_mode_eq dest: mode_of_inj)


lemma performTask_fields:
  "workerQueue (performTask t w) = workerQueue w"
  "mainQueue (performTask t w) = mainQueue w"
  "m_uniqueId (performTask t w) = m_uniqueId w"
  "nextBridge (performTask t w) = nextBridge w"
  "killed (performTask t w) = killed w"
  by (cases t; simp add: didComplete_eq)+

lemma wake_up_cases:
  assumes "wake_up m w = Some (rc, w')"
  shows "(rc = MessageQueueTerminated \<and> killed w \<and> w' = w) \<or>
     (rc = MessageQueueMessageReceived \<and> \<not> killed w \<and>
      (\<exists>t q. takeTask m (workerQueue w) = Some (t, q) \<and> w' = performTask t (w\<lparr>workerQueue := q\<rparr>)))"
proof (cases "killed w")
  case True
  with assms show ?thesis by (simp add: wake_up_def)
next
  case False
  show ?thesis
  proof (cases "takeTask m (workerQueue w)")
    case None
    with assms False show ?thesis by (simp add: wake_up_def)
  next
    case (Some p)
    obtain t q where "p = (t, q)" by (cases p)
    with assms False Some show ?thesis by (simp add: wake_up_def)
  qed
qed

lemma takeTask_subset: "takeTask m q = Some (t, q') \<Longrightarrow> set q' \<subseteq> set q"
  by (induction q arbitrary: t q') (fastforce split: option.splits if_splits)+

lemma takeTask_count:
  "takeTask m q = Some (t, q') \<Longrightarrow>
   length (filter P q) = length (filter P q') + (if P (m, t) then 1 else 0)"
  by (induction q arbitrary: t q') (auto split: option.splits if_splits)

text \<open>The counter of the run loop never goes down, and a call takes one value.\<close>

lemma life_step_uniqueId: "m_uniqueId w \<le> m_uniqueId (life_step e w)"
proof (cases e)
  case (Env x)
  then show ?thesis by (simp add: env_step_fields)
next
  case (PerformsInMode m)
  show ?thesis
  proof (cases "wake_up m w")
    case None
    with PerformsInMode show ?thesis by simp
  next
    case (Some p)
    obtain rc w' where p: "p = (rc, w')" by (cases p)
    from wake_up_cases [OF Some [unfolded p]] have "m_uniqueId w' = m_uniqueId w"
      by (auto simp: performTask_fields)
    with PerformsInMode Some p show ?thesis by simp
  qed
next
  case PerformsNext
  then show ?thesis by (auto simp: performTask_fields split: list.split)
next
  case (StartsCheck wb name)
  then show ?thesis by (simp add: check_start_eq)
next
  case (Cancels b)
  then show ?thesis by (simp add: cancel_eq)
next
  case (ReadsResult b)
  then show ?thesis by (simp add: result_eq)
qed

lemma fold_life_uniqueId: "m_uniqueId w \<le> m_uniqueId (fold life_step ls w)"
proof (induction ls arbitrary: w)
  case Nil
  show ?case by simp
next
  case (Cons e ls)
  have "m_uniqueId w \<le> m_uniqueId (life_step e w)" by (rule life_step_uniqueId)
  also have "\<dots> \<le> m_uniqueId (fold life_step ls (life_step e w))" by (rule Cons.IH)
  finally show ?case by simp
qed

text \<open>A returned call is a run of life events from the world in which it parked.\<close>

lemma fold_env_life: "fold env_step pre w = fold life_step (map Env pre) w"
  by (induction pre arbitrary: w) simp_all

lemma check_is_life:
  assumes "allowIDBFromWorkerThread wb name evs w = Some (r, w')"
  shows "\<exists>ls. w' = fold life_step ls (snd (check_start wb name w))"
proof -
  let ?m = "check_mode w" and ?w2 = "snd (check_start wb name w)"
  from assms obtain rc w3 where run: "runInMode ?m evs ?w2 = Some (rc, w3)"
    and fin: "w' = (if rc = MessageQueueTerminated then cancel (nextBridge w) w3 else snd (result (nextBridge w) w3))"
    by (auto simp: allowIDBFromWorkerThread_eq split: option.splits if_splits)
  from runInMode_decisive [OF run] obtain pre post
    where wk: "wake_up ?m (fold env_step pre ?w2) = Some (rc, w3)" by blast
  then have w3: "w3 = fold life_step (map Env pre @ [PerformsInMode ?m]) ?w2"
    by (simp add: fold_env_life)
  show ?thesis
  proof (cases "rc = MessageQueueTerminated")
    case True
    with fin w3 have "w' = fold life_step (map Env pre @ [PerformsInMode ?m, Cancels (nextBridge w)]) ?w2"
      by simp
    then show ?thesis ..
  next
    case False
    with fin w3 have "w' = fold life_step (map Env pre @ [PerformsInMode ?m, ReadsResult (nextBridge w)]) ?w2"
      by simp
    then show ?thesis ..
  qed
qed

lemma check_uniqueId:
  assumes "allowIDBFromWorkerThread wb name evs w = Some (r, w')"
  shows "m_uniqueId w < m_uniqueId w'"
proof -
  from check_is_life [OF assms] obtain ls where "w' = fold life_step ls (snd (check_start wb name w))" ..
  with fold_life_uniqueId [of "snd (check_start wb name w)" ls] show ?thesis
    by (simp add: check_start_eq)
qed

text \<open>Queued modes stay within the counter values handed out, so the next id is unused.\<close>

lemma post_of_modes: "fst ` set (post_of bs t) \<subseteq> {task_mode t}"
  by (auto simp: post_of_def split: option.splits)

lemma modes_boundedI:
  assumes "\<And>m. m \<in> fst ` set (workerQueue w) \<Longrightarrow> m \<in> mode_of ` {..m_uniqueId w}"
    and "\<And>m. m \<in> task_mode ` set (mainQueue w) \<Longrightarrow> m \<in> mode_of ` {..m_uniqueId w}"
  shows "modes_bounded w"
  using assms unfolding modes_bounded_def by blast

lemma modes_boundedD:
  assumes "modes_bounded w"
  shows "fst ` set (workerQueue w) \<subseteq> mode_of ` {..m_uniqueId w}"
    and "task_mode ` set (mainQueue w) \<subseteq> mode_of ` {..m_uniqueId w}"
  using assms unfolding modes_bounded_def by blast+

lemma modes_bounded_sub:
  assumes b: "modes_bounded w"
    and wq: "fst ` set (workerQueue w') \<subseteq> fst ` set (workerQueue w) \<union> task_mode ` set (mainQueue w)"
    and mq: "task_mode ` set (mainQueue w') \<subseteq> task_mode ` set (mainQueue w)"
    and n: "m_uniqueId w' = m_uniqueId w"
  shows "modes_bounded w'"
proof (rule modes_boundedI)
  fix m assume "m \<in> fst ` set (workerQueue w')"
  with wq have "m \<in> fst ` set (workerQueue w) \<union> task_mode ` set (mainQueue w)" by (rule subsetD)
  with modes_boundedD [OF b] have "m \<in> mode_of ` {..m_uniqueId w}" by blast
  with n show "m \<in> mode_of ` {..m_uniqueId w'}" by simp
next
  fix m assume "m \<in> task_mode ` set (mainQueue w')"
  with mq have "m \<in> task_mode ` set (mainQueue w)" by (rule subsetD)
  with modes_boundedD [OF b] have "m \<in> mode_of ` {..m_uniqueId w}" by blast
  with n show "m \<in> mode_of ` {..m_uniqueId w'}" by simp
qed

lemma env_step_modes_bounded: "modes_bounded w \<Longrightarrow> modes_bounded (env_step e w)"
proof (erule modes_bounded_sub)
  show "fst ` set (workerQueue (env_step e w)) \<subseteq> fst ` set (workerQueue w) \<union> task_mode ` set (mainQueue w)"
  proof (cases "mainQueue w")
    case Nil
    then show ?thesis by (simp add: env_step_fields)
  next
    case (Cons t ts)
    with post_of_modes [of "bridges w" t] show ?thesis by (auto simp: env_step_fields)
  qed
  show "task_mode ` set (mainQueue (env_step e w)) \<subseteq> task_mode ` set (mainQueue w)"
    by (cases "mainQueue w") (auto simp: env_step_fields)
  show "m_uniqueId (env_step e w) = m_uniqueId w" by (simp add: env_step_fields)
qed

lemma wake_up_modes_bounded:
  assumes "modes_bounded w" and "wake_up m w = Some (rc, w')"
  shows "modes_bounded w'"
  using wake_up_cases [OF assms(2)]
proof
  assume "rc = MessageQueueTerminated \<and> killed w \<and> w' = w"
  with assms(1) show ?thesis by simp
next
  assume "rc = MessageQueueMessageReceived \<and> \<not> killed w \<and>
      (\<exists>t q. takeTask m (workerQueue w) = Some (t, q) \<and> w' = performTask t (w\<lparr>workerQueue := q\<rparr>))"
  then obtain t q where tk: "takeTask m (workerQueue w) = Some (t, q)"
    and w': "w' = performTask t (w\<lparr>workerQueue := q\<rparr>)" by blast
  from takeTask_subset [OF tk] have "fst ` set q \<subseteq> fst ` set (workerQueue w)" by blast
  with assms(1) w' show ?thesis
    by (elim modes_bounded_sub) (auto simp: performTask_fields)
qed

lemma check_mode_in: "check_mode w \<in> mode_of ` {..m_uniqueId w + 1}"
  by (simp add: check_mode_eq)

lemma life_step_modes_bounded: "modes_bounded w \<Longrightarrow> modes_bounded (life_step e w)"
proof (cases e)
  case (Env x)
  assume "modes_bounded w"
  with Env show ?thesis by (simp add: env_step_modes_bounded)
next
  case (PerformsInMode m)
  assume b: "modes_bounded w"
  show ?thesis
  proof (cases "wake_up m w")
    case None
    with PerformsInMode b show ?thesis by simp
  next
    case (Some p)
    obtain rc w' where p: "p = (rc, w')" by (cases p)
    from wake_up_modes_bounded [OF b Some [unfolded p]] PerformsInMode Some p
    show ?thesis by simp
  qed
next
  case PerformsNext
  assume b: "modes_bounded w"
  show ?thesis
  proof (cases "killed w \<or> workerQueue w = []")
    case True
    with PerformsNext b show ?thesis by (auto split: list.split)
  next
    case False
    then obtain m t q where q: "workerQueue w = (m, t) # q" by (cases "workerQueue w") auto
    with False PerformsNext have ls: "life_step e w = performTask t (w\<lparr>workerQueue := q\<rparr>)" by simp
    from b q show ?thesis unfolding ls
      by (elim modes_bounded_sub) (auto simp: performTask_fields)
  qed
next
  case (StartsCheck wb name)
  assume b: "modes_bounded w"
  have le: "mode_of ` {..m_uniqueId w} \<subseteq> mode_of ` {..m_uniqueId w + 1}" by auto
  show ?thesis unfolding StartsCheck life_step.simps
  proof (rule modes_boundedI)
    fix m assume "m \<in> fst ` set (workerQueue (snd (check_start wb name w)))"
    with modes_boundedD(1) [OF b] le show "m \<in> mode_of ` {..m_uniqueId (snd (check_start wb name w))}"
      by (auto simp: check_start_eq)
  next
    fix m assume "m \<in> task_mode ` set (mainQueue (snd (check_start wb name w)))"
    then have "m = check_mode w \<or> m \<in> task_mode ` set (mainQueue w)"
      by (auto simp: check_start_eq)
    with modes_boundedD(2) [OF b] le check_mode_in [of w]
    show "m \<in> mode_of ` {..m_uniqueId (snd (check_start wb name w))}"
      by (auto simp: check_start_eq)
  qed
next
  case (Cancels b)
  assume "modes_bounded w"
  then show ?thesis unfolding Cancels
    by (rule modes_bounded_sub) (auto simp: cancel_eq)
next
  case (ReadsResult b)
  assume "modes_bounded w"
  then show ?thesis unfolding ReadsResult
    by (rule modes_bounded_sub) (auto simp: result_eq)
qed

lemma fold_life_modes_bounded: "modes_bounded w \<Longrightarrow> modes_bounded (fold life_step ls w)"
  by (induction ls arbitrary: w) (simp_all add: life_step_modes_bounded)

lemma modes_bounded_unused:
  assumes "modes_bounded w"
  shows "mode_unused (check_mode w) w"
proof -
  have "check_mode w \<notin> mode_of ` {..m_uniqueId w}"
  proof
    assume "check_mode w \<in> mode_of ` {..m_uniqueId w}"
    then obtain k where "k \<le> m_uniqueId w" and "mode_of (m_uniqueId w + 1) = mode_of k"
      by (auto simp: check_mode_eq)
    with mode_of_inj [of "m_uniqueId w + 1" k] show False by simp
  qed
  with modes_boundedD [OF assms] show ?thesis
    unfolding mode_unused_def by blast
qed

lemma check_modes_bounded:
  assumes "modes_bounded w" and "allowIDBFromWorkerThread wb name evs w = Some (r, w')"
  shows "modes_bounded w'"
proof -
  from check_is_life [OF assms(2)] obtain ls
    where "w' = fold life_step ls (life_step (StartsCheck wb name) w)" by auto
  with fold_life_modes_bounded [OF life_step_modes_bounded [OF assms(1)], of ls "StartsCheck wb name"]
  show ?thesis by simp
qed


lemma modes_bounded_idle: "modes_bounded idle_world"
  by (simp add: modes_bounded_def idle_world_def)

text \<open>A wait takes its own completion from behind the tasks of other modes and leaves those.\<close>

lemma takeTask_append_unused:
  "m \<notin> fst ` set q1 \<Longrightarrow>
   takeTask m (q1 @ q2) = (case takeTask m q2 of None \<Rightarrow> None | Some (t, q') \<Rightarrow> Some (t, q1 @ q'))"
proof (induction q1)
  case Nil
  show ?case by (simp split: option.split)
next
  case (Cons p q1)
  obtain m' t' where p: "p = (m', t')" by (cases p)
  with Cons.prems have ne: "m' \<noteq> m" and rest: "m \<notin> fst ` set q1" by auto
  from Cons.IH [OF rest] p ne show ?case by (simp split: option.split)
qed

lemma check_mode_explicit: "check_mode w = allowIndexedDBMode @ number (m_uniqueId w + 1)"
  by (simp add: check_mode_eq mode_of_def)

text \<open>A call whose queue is terminated at once leaves its dispatched task in the main
  thread's queue.\<close>

lemma check_killed_at_once:
  "\<exists>v. allowIDBFromWorkerThread wb name (QueueKilled # WorkerWakes # evs) w = Some (False, v) \<and>
      mainQueue v = mainQueue w @
        [AllowIndexedDBTask (nextBridge w) (commonClient wb) name (allowIndexedDBMode @ number (m_uniqueId w + 1))]"
proof -
  let ?w2 = "snd (check_start wb name w)"
  have run: "runInMode (check_mode w) (QueueKilled # WorkerWakes # evs) ?w2 =
      Some (MessageQueueTerminated, ?w2\<lparr>killed := True\<rparr>)"
    by (simp add: wake_up_def)
  have "allowIDBFromWorkerThread wb name (QueueKilled # WorkerWakes # evs) w =
      Some (False, cancel (nextBridge w) (?w2\<lparr>killed := True\<rparr>))"
    by (simp only: allowIDBFromWorkerThread_eq run) simp
  moreover have "mainQueue (cancel (nextBridge w) (?w2\<lparr>killed := True\<rparr>)) = mainQueue w @
        [AllowIndexedDBTask (nextBridge w) (commonClient wb) name (allowIndexedDBMode @ number (m_uniqueId w + 1))]"
    by (simp add: cancel_eq check_start_eq check_mode_explicit)
  ultimately show ?thesis by blast
qed

text \<open>On an idle main thread, the call's own completion is posted behind the queued tasks
  and taken from there.\<close>

lemma check_own_completion:
  assumes fresh: "mode_unused (check_mode w) w" and live: "\<not> killed w" and idle: "mainQueue w = []"
  shows "\<exists>v. allowIDBFromWorkerThread wb name (MainThreadRuns # WorkerWakes # evs) w =
        Some (answer (commonClient wb) name, v) \<and> workerQueue v = workerQueue w"
proof -
  let ?w2 = "snd (check_start wb name w)" and ?m = "check_mode w" and ?b = "nextBridge w"
  let ?w1 = "fold env_step [MainThreadRuns] ?w2"
  let ?ours = "(?m, DidComplete ?b (answer (commonClient wb) name))"
  have q: "workerQueue ?w1 = workerQueue w @ [?ours]"
    using idle by (simp only: parked_workerQueue) (simp add: post_of_ours)
  from fresh have un: "?m \<notin> fst ` set (workerQueue w)" by (simp add: mode_unused_def)
  have tk: "takeTask ?m (workerQueue ?w1) = Some (DidComplete ?b (answer (commonClient wb) name), workerQueue w)"
    by (simp only: q takeTask_append_unused [OF un]) simp
  from live idle have wk: "wake_up ?m ?w1 =
     Some (MessageQueueMessageReceived,
       didComplete ?b (answer (commonClient wb) name) (?w1\<lparr>workerQueue := workerQueue w\<rparr>))"
    by (simp only: parked_wake_up [OF fresh] tk) simp
  have "runInMode ?m (MainThreadRuns # WorkerWakes # evs) ?w2 =
      (case wake_up ?m ?w1 of Some r \<Rightarrow> Some r | None \<Rightarrow> runInMode ?m evs ?w1)"
    by (simp del: env_step.simps split: option.split)
  with wk have run: "runInMode ?m (MainThreadRuns # WorkerWakes # evs) ?w2 =
     Some (MessageQueueMessageReceived,
       didComplete ?b (answer (commonClient wb) name) (?w1\<lparr>workerQueue := workerQueue w\<rparr>))"
    by simp
  have "allowIDBFromWorkerThread wb name (MainThreadRuns # WorkerWakes # evs) w =
      Some (result ?b (didComplete ?b (answer (commonClient wb) name) (?w1\<lparr>workerQueue := workerQueue w\<rparr>)))"
    by (simp only: allowIDBFromWorkerThread_eq run) simp
  then have "allowIDBFromWorkerThread wb name (MainThreadRuns # WorkerWakes # evs) w =
      Some (answer (commonClient wb) name,
        snd (result ?b (didComplete ?b (answer (commonClient wb) name) (?w1\<lparr>workerQueue := workerQueue w\<rparr>)))) \<and>
     workerQueue (snd (result ?b (didComplete ?b (answer (commonClient wb) name) (?w1\<lparr>workerQueue := workerQueue w\<rparr>))))
       = workerQueue w"
    by (simp add: result_eq didComplete_eq)
  then show ?thesis by blast
qed

text \<open>A returned call has taken nothing but its own completion: the tasks queued before it
  are still at the front of the queue, and no other bridge has been touched.\<close>

lemma check_leaves_others:
  assumes fresh: "mode_unused (check_mode w) w"
    and ret: "allowIDBFromWorkerThread wb name evs w = Some (r, w')"
  shows "(\<exists>added. workerQueue w' = workerQueue w @ added) \<and>
     (\<forall>b. b \<noteq> nextBridge w \<longrightarrow> bridges w' b = bridges w b)"
proof -
  let ?m = "check_mode w" and ?w2 = "snd (check_start wb name w)" and ?b = "nextBridge w"
  from ret obtain rc w3 where run: "runInMode ?m evs ?w2 = Some (rc, w3)"
    and fin: "w' = (if rc = MessageQueueTerminated then cancel ?b w3 else snd (result ?b w3))"
    by (auto simp: allowIDBFromWorkerThread_eq split: option.splits if_splits)
  from runInMode_decisive [OF run] obtain pre post
    where wk: "wake_up ?m (fold env_step pre ?w2) = Some (rc, w3)" by blast
  let ?w1 = "fold env_step pre ?w2"
  obtain posts where q1: "workerQueue ?w1 = workerQueue w @ posts"
    by (simp add: parked_workerQueue)
  have b1: "bridges ?w1 c = bridges w c" if "c \<noteq> ?b" for c
    using that by (simp add: fold_env_fields check_start_eq)
  from fresh have un: "?m \<notin> fst ` set (workerQueue w)" by (simp add: mode_unused_def)
  have w3: "(\<exists>added. workerQueue w3 = workerQueue w @ added) \<and>
     (\<forall>c. c \<noteq> ?b \<longrightarrow> bridges w3 c = bridges w c)"
    using wake_up_cases [OF wk]
  proof
    assume "rc = MessageQueueTerminated \<and> killed ?w1 \<and> w3 = ?w1"
    with q1 b1 show ?thesis by simp
  next
    assume "rc = MessageQueueMessageReceived \<and> \<not> killed ?w1 \<and>
      (\<exists>t q. takeTask ?m (workerQueue ?w1) = Some (t, q) \<and> w3 = performTask t (?w1\<lparr>workerQueue := q\<rparr>))"
    then obtain t q where tk: "takeTask ?m (workerQueue ?w1) = Some (t, q)"
      and w3: "w3 = performTask t (?w1\<lparr>workerQueue := q\<rparr>)" by blast
    from takeTask_Some [OF tk] parked_only_ours [OF fresh]
    have t: "t = DidComplete ?b (answer (commonClient wb) name)" by blast
    from tk have "takeTask ?m (workerQueue w @ posts) = Some (t, q)" by (simp only: q1)
    then obtain q' where "q = workerQueue w @ q'"
      by (auto simp: takeTask_append_unused [OF un] split: option.splits)
    with w3 t b1 show ?thesis by (simp add: didComplete_eq)
  qed
  have "workerQueue w' = workerQueue w3" and "\<forall>c. c \<noteq> ?b \<longrightarrow> bridges w' c = bridges w3 c"
    using fin by (simp_all add: cancel_eq result_eq)
  with w3 show ?thesis by simp
qed

lemma later_mode_distinct:
  "m_uniqueId w < m_uniqueId v \<Longrightarrow>
   allowIndexedDBMode @ number (m_uniqueId v + 1) \<noteq> allowIndexedDBMode @ number (m_uniqueId w + 1)"
  by (auto dest: number_inj)


lemma answered_world_fields:
  "\<not> killed answered_world"
  "mainQueue answered_world = []"
  "workerQueue answered_world = [(''allowIndexedDBMode1'', DidComplete 0 True)]"
  "m_uniqueId answered_world = 1"
  "nextBridge answered_world = 1"
  "m_result (bridges answered_world 0) = False"
proof -
  have w1: "answered_world = env_step MainThreadRuns (snd (check_start inbox_client ''inbox'' idle_world))"
    by (simp add: answered_world_def del: env_step.simps)
  have q: "mainQueue (snd (check_start inbox_client ''inbox'' idle_world)) =
      [AllowIndexedDBTask 0 (commonClient inbox_client) ''inbox'' ''allowIndexedDBMode1'']"
    by (simp add: check_start_eq check_mode_idle) (simp add: idle_world_def)
  have b: "bridges (snd (check_start inbox_client ''inbox'' idle_world)) 0 =
      \<lparr>m_result = False, m_webWorkerBase = Some inbox_client\<rparr>"
    by (simp add: check_start_eq idle_world_def)
  have p: "post_of (bridges (snd (check_start inbox_client ''inbox'' idle_world)))
      (AllowIndexedDBTask 0 (commonClient inbox_client) ''inbox'' ''allowIndexedDBMode1'') =
      [(''allowIndexedDBMode1'', DidComplete 0 True)]"
    by (simp add: post_of_def b) (simp add: answer_def inbox_client_def)
  show "\<not> killed answered_world"
    by (simp only: w1 env_step_fields) (simp add: check_start_eq idle_world_def)
  show "mainQueue answered_world = []"
    by (simp only: w1 env_step_fields q) simp
  show "workerQueue answered_world = [(''allowIndexedDBMode1'', DidComplete 0 True)]"
    by (simp only: w1 env_step_fields q) (simp add: p, simp add: check_start_eq idle_world_def)
  show "m_uniqueId answered_world = 1"
    by (simp only: w1 env_step_fields) (simp add: check_start_eq idle_world_def)
  show "nextBridge answered_world = 1"
    by (simp only: w1 env_step_fields) (simp add: check_start_eq idle_world_def)
  show "m_result (bridges answered_world 0) = False"
    by (simp only: w1 env_step_fields b) simp
qed

lemma modes_bounded_answered: "modes_bounded answered_world"
  unfolding answered_world_def by (rule fold_life_modes_bounded [OF modes_bounded_idle])

text \<open>
  C7. Every call of \<open>allowIDBFromWorkerThread\<close> generates the wait-channel id made of the base
  tag and the fresh counter value in decimal: it is the mode carried by the task the call
  dispatches (first conjunct: the task is in the main thread's queue of the world returned
  when the queue is terminated at once), no task queued before the call carries it (second
  conjunct), and the call wakes on the completion tagged with it (third conjunct: on a live
  loop with an idle main thread the completion is posted, taken in the call's own wait and
  the queue is as before). A call that returns has taken from the worker's queue nothing but
  its own completion: the tasks queued before it, tagged for other requests, are still at
  the front of the queue and every bridge but the call's own is untouched. Whatever happens
  after a call has returned, also nothing at all (calls back-to-back, with the same name or
  another), the id the next call generates differs from the id of that call. The hypothesis
  says that the modes of the tasks queued before the call were made from counter values
  handed out before; it holds again after the call and after anything that happens later.
\<close>

theorem wait_channel_ids_distinct:
  assumes "modes_bounded w"
  shows "(\<exists>v. allowIDBFromWorkerThread wb name (QueueKilled # WorkerWakes # evs) w = Some (False, v) \<and>
        mainQueue v = mainQueue w @
          [AllowIndexedDBTask (nextBridge w) (commonClient wb) name
             (allowIndexedDBMode @ number (m_uniqueId w + 1))]) \<and>
     allowIndexedDBMode @ number (m_uniqueId w + 1) \<notin>
        fst ` set (workerQueue w) \<union> task_mode ` set (mainQueue w) \<and>
     (\<not> killed w \<and> mainQueue w = [] \<longrightarrow>
        (\<exists>v. allowIDBFromWorkerThread wb name (MainThreadRuns # WorkerWakes # evs) w =
              Some (answer (commonClient wb) name, v) \<and>
           workerQueue v = workerQueue w)) \<and>
     (\<forall>r w'. allowIDBFromWorkerThread wb name evs w = Some (r, w') \<longrightarrow>
        (\<exists>added. workerQueue w' = workerQueue w @ added) \<and>
        (\<forall>b. b \<noteq> nextBridge w \<longrightarrow> bridges w' b = bridges w b) \<and>
        modes_bounded (fold life_step ls w') \<and>
        allowIndexedDBMode @ number (m_uniqueId (fold life_step ls w') + 1) \<noteq>
          allowIndexedDBMode @ number (m_uniqueId w + 1))"
proof -
  from assms have fresh: "mode_unused (check_mode w) w" by (rule modes_bounded_unused)
  have unused: "allowIndexedDBMode @ number (m_uniqueId w + 1) \<notin>
        fst ` set (workerQueue w) \<union> task_mode ` set (mainQueue w)"
    using fresh by (simp add: mode_unused_def check_mode_explicit)
  have own: "\<exists>v. allowIDBFromWorkerThread wb name (MainThreadRuns # WorkerWakes # evs) w =
              Some (answer (commonClient wb) name, v) \<and> workerQueue v = workerQueue w"
    if "\<not> killed w \<and> mainQueue w = []"
    using that check_own_completion [OF fresh, of wb name evs] by blast
  have after: "(\<exists>added. workerQueue w' = workerQueue w @ added) \<and>
        (\<forall>b. b \<noteq> nextBridge w \<longrightarrow> bridges w' b = bridges w b) \<and>
        modes_bounded (fold life_step ls w') \<and>
        allowIndexedDBMode @ number (m_uniqueId (fold life_step ls w') + 1) \<noteq>
          allowIndexedDBMode @ number (m_uniqueId w + 1)"
    if ret: "allowIDBFromWorkerThread wb name evs w = Some (r, w')" for r w'
  proof -
    note others = check_leaves_others [OF fresh ret]
    from check_modes_bounded [OF assms ret]
    have mb: "modes_bounded (fold life_step ls w')" by (rule fold_life_modes_bounded)
    have "m_uniqueId w < m_uniqueId w'" by (rule check_uniqueId [OF ret])
    also have "\<dots> \<le> m_uniqueId (fold life_step ls w')" by (rule fold_life_uniqueId)
    finally have "allowIndexedDBMode @ number (m_uniqueId (fold life_step ls w') + 1) \<noteq>
          allowIndexedDBMode @ number (m_uniqueId w + 1)"
      by (rule later_mode_distinct)
    with others mb show ?thesis by blast
  qed
  from check_killed_at_once [of wb name evs w] unused own after show ?thesis by blast
qed

theorem wait_channel_ids_distinct_witness:
  "modes_bounded answered_world \<and> \<not> killed answered_world \<and> mainQueue answered_world = [] \<and>
   workerQueue answered_world = [(''allowIndexedDBMode1'', DidComplete 0 True)] \<and>
   m_result (bridges answered_world 0) = False \<and>
   (\<exists>v. allowIDBFromWorkerThread inbox_client ''inbox'' [QueueKilled, WorkerWakes] answered_world = Some (False, v) \<and>
      mainQueue v = [AllowIndexedDBTask 1 (commonClient inbox_client) ''inbox'' ''allowIndexedDBMode2'']) \<and>
   (\<exists>v. allowIDBFromWorkerThread inbox_client ''inbox'' [MainThreadRuns, WorkerWakes] answered_world = Some (True, v) \<and>
      workerQueue v = [(''allowIndexedDBMode1'', DidComplete 0 True)] \<and>
      m_result (bridges v 0) = False \<and>
      allowIndexedDBMode @ number (m_uniqueId v + 1) \<noteq> ''allowIndexedDBMode2'')"
proof -
  note f = answered_world_fields
  note t = wait_channel_ids_distinct [OF modes_bounded_answered, of inbox_client "''inbox''" "[]" "[]"]
  have m2: "allowIndexedDBMode @ number (m_uniqueId answered_world + 1) = ''allowIndexedDBMode2''"
    by (simp add: f allowIndexedDBMode_def number_small digit_def)
  have ans: "answer (commonClient inbox_client) ''inbox'' = True"
    by (simp add: answer_def inbox_client_def)
  from t have "\<exists>v. allowIDBFromWorkerThread inbox_client ''inbox'' (QueueKilled # WorkerWakes # []) answered_world = Some (False, v) \<and>
        mainQueue v = mainQueue answered_world @
          [AllowIndexedDBTask (nextBridge answered_world) (commonClient inbox_client) ''inbox''
             (allowIndexedDBMode @ number (m_uniqueId answered_world + 1))]"
    by (rule conjunct1)
  then have one: "\<exists>v. allowIDBFromWorkerThread inbox_client ''inbox'' [QueueKilled, WorkerWakes] answered_world = Some (False, v) \<and>
      mainQueue v = [AllowIndexedDBTask 1 (commonClient inbox_client) ''inbox'' ''allowIndexedDBMode2'']"
    by (simp only: m2 f(2,5) append_Nil)
  from t f have "\<exists>v. allowIDBFromWorkerThread inbox_client ''inbox'' (MainThreadRuns # WorkerWakes # []) answered_world =
              Some (answer (commonClient inbox_client) ''inbox'', v) \<and>
           workerQueue v = workerQueue answered_world"
    by blast
  then obtain v where v: "allowIDBFromWorkerThread inbox_client ''inbox'' [MainThreadRuns, WorkerWakes] answered_world = Some (True, v)"
    and qv: "workerQueue v = [(''allowIndexedDBMode1'', DidComplete 0 True)]"
    by (auto simp only: ans f(3))
  note t2 = wait_channel_ids_distinct [OF modes_bounded_answered, of inbox_client "''inbox''" "[MainThreadRuns, WorkerWakes]" "[]"]
  from t2 v have bv: "\<forall>b. b \<noteq> nextBridge answered_world \<longrightarrow> bridges v b = bridges answered_world b"
    and dv: "allowIndexedDBMode @ number (m_uniqueId (fold life_step [] v) + 1) \<noteq>
          allowIndexedDBMode @ number (m_uniqueId answered_world + 1)"
    by blast+
  from bv f have rv: "m_result (bridges v 0) = False" by simp
  have "fold life_step [] v = v" by simp
  with dv have "allowIndexedDBMode @ number (m_uniqueId v + 1) \<noteq>
      allowIndexedDBMode @ number (m_uniqueId answered_world + 1)"
    by simp
  then have dv': "allowIndexedDBMode @ number (m_uniqueId v + 1) \<noteq> ''allowIndexedDBMode2''"
    unfolding m2 .
  from v qv rv dv' have two: "\<exists>v. allowIDBFromWorkerThread inbox_client ''inbox'' [MainThreadRuns, WorkerWakes] answered_world = Some (True, v) \<and>
      workerQueue v = [(''allowIndexedDBMode1'', DidComplete 0 True)] \<and>
      m_result (bridges v 0) = False \<and>
      allowIndexedDBMode @ number (m_uniqueId v + 1) \<noteq> ''allowIndexedDBMode2''"
    by blast
  from modes_bounded_answered f one two show ?thesis by blast
qed

text \<open>The completions of a bridge on their way and its result writes never grow in sum.\<close>

lemma post_of_pending:
  "length (filter (\<lambda>p. completed_bridge (snd p) = b) (post_of bs t)) \<le> (if task_bridge t = b then 1 else 0)"
  by (simp add: post_of_def split: option.split)

lemma env_step_once:
  "pending b (env_step e w) + result_writes b (env_step e w) \<le> pending b w + result_writes b w"
proof (cases "e = MainThreadRuns")
  case False
  then show ?thesis by (simp add: pending_def result_writes_def env_step_eq split: env_event.split)
next
  case True
  show ?thesis
  proof (cases "mainQueue w")
    case Nil
    with True show ?thesis by (simp add: pending_def result_writes_def)
  next
    case (Cons t ts)
    with True post_of_pending [of b "bridges w" t] show ?thesis
      by (cases "task_bridge t = b") (simp_all add: pending_def result_writes_def run_main_task_eq)
  qed
qed

lemma performTask_once:
  "pending b (performTask t (w\<lparr>workerQueue := q\<rparr>)) + result_writes b (performTask t (w\<lparr>workerQueue := q\<rparr>)) =
   length (filter (\<lambda>t. task_bridge t = b) (mainQueue w)) +
   length (filter (\<lambda>p. completed_bridge (snd p) = b) q) +
   (if completed_bridge t = b then 1 else 0) + result_writes b w"
  by (cases t) (simp add: pending_def result_writes_def didComplete_eq)

lemma wake_up_once:
  assumes "wake_up m w = Some (rc, w')"
  shows "pending b w' + result_writes b w' = pending b w + result_writes b w \<and> nextBridge w' = nextBridge w"
  using wake_up_cases [OF assms]
proof
  assume "rc = MessageQueueTerminated \<and> killed w \<and> w' = w"
  then show ?thesis by simp
next
  assume "rc = MessageQueueMessageReceived \<and> \<not> killed w \<and>
      (\<exists>t q. takeTask m (workerQueue w) = Some (t, q) \<and> w' = performTask t (w\<lparr>workerQueue := q\<rparr>))"
  then obtain t q where tk: "takeTask m (workerQueue w) = Some (t, q)"
    and w': "w' = performTask t (w\<lparr>workerQueue := q\<rparr>)" by blast
  from takeTask_count [OF tk, of "\<lambda>p. completed_bridge (snd p) = b"]
  show ?thesis unfolding w' performTask_once
    by (simp add: pending_def performTask_fields)
qed

lemma life_step_once:
  assumes "b < nextBridge w"
  shows "b < nextBridge (life_step e w) \<and>
     pending b (life_step e w) + result_writes b (life_step e w) \<le> pending b w + result_writes b w"
proof (cases e)
  case (Env x)
  with assms env_step_once [of b x w] show ?thesis by (simp add: env_step_fields)
next
  case (PerformsInMode m)
  show ?thesis
  proof (cases "wake_up m w")
    case None
    with PerformsInMode assms show ?thesis by simp
  next
    case (Some p)
    obtain rc w' where p: "p = (rc, w')" by (cases p)
    from wake_up_once [OF Some [unfolded p], of b] PerformsInMode Some p assms
    show ?thesis by simp
  qed
next
  case PerformsNext
  show ?thesis
  proof (cases "killed w \<or> workerQueue w = []")
    case True
    with PerformsNext assms show ?thesis by (auto split: list.split)
  next
    case False
    then obtain m t q where q: "workerQueue w = (m, t) # q" by (cases "workerQueue w") auto
    with False PerformsNext have ls: "life_step e w = performTask t (w\<lparr>workerQueue := q\<rparr>)" by simp
    from q assms show ?thesis unfolding ls performTask_once
      by (simp add: pending_def performTask_fields)
  qed
next
  case (StartsCheck wb name)
  with assms show ?thesis by (simp add: check_start_eq pending_def result_writes_def)
next
  case (Cancels c)
  with assms show ?thesis by (simp add: cancel_eq pending_def result_writes_def)
next
  case (ReadsResult c)
  with assms show ?thesis by (simp add: result_eq pending_def result_writes_def)
qed

lemma fold_life_once:
  "b < nextBridge w \<Longrightarrow>
   pending b (fold life_step ls w) + result_writes b (fold life_step ls w) \<le> pending b w + result_writes b w"
proof (induction ls arbitrary: w)
  case Nil
  show ?case by simp
next
  case (Cons e ls)
  from life_step_once [OF Cons.prems, of e] have lt: "b < nextBridge (life_step e w)"
    and le: "pending b (life_step e w) + result_writes b (life_step e w) \<le> pending b w + result_writes b w"
    by simp_all
  from Cons.IH [OF lt] le show ?case by simp
qed

lemma check_start_once:
  assumes "refs_allocated w"
  shows "pending (nextBridge w) (snd (check_start wb name w)) = 1"
    and "result_writes (nextBridge w) (snd (check_start wb name w)) = 0"
    and "nextBridge w < nextBridge (snd (check_start wb name w))"
proof -
  from assms have m: "filter (\<lambda>t. task_bridge t = nextBridge w) (mainQueue w) = []"
    and q: "filter (\<lambda>p. completed_bridge (snd p) = nextBridge w) (workerQueue w) = []"
    and a: "filter (\<lambda>a. a = Write (nextBridge w) F_result) (accesses w) = []"
    by (force simp: refs_allocated_def filter_empty_conv)+
  from m q show "pending (nextBridge w) (snd (check_start wb name w)) = 1"
    by (simp add: pending_def check_start_eq)
  from a show "result_writes (nextBridge w) (snd (check_start wb name w)) = 0"
    by (simp add: result_writes_def check_start_eq)
  show "nextBridge w < nextBridge (snd (check_start wb name w))"
    by (simp add: check_start_eq)
qed

lemma refs_allocated_idle: "refs_allocated idle_world"
  by (simp add: refs_allocated_def idle_world_def)

text \<open>
  C6. The result slot of a bridge is false when the bridge is constructed and is written
  at most once over the bridge's lifetime, and only by \<open>didComplete\<close>: whatever happens
  after the construction (main-thread tasks run, the queue is terminated, the worker
  performs queued tasks in any mode, starts further checks, cancels or reads bridges),
  also after the call that made the bridge has returned, the record of accesses holds at
  most one write of the bridge's result. \<open>cancel\<close>, \<open>signalCompleted\<close> and \<open>result\<close> leave the
  result slot of every bridge as it is and record no write of it; \<open>didComplete\<close> records one
  and stores its argument. The hypothesis says that the world of the call refers to no
  bridge not yet allocated.
\<close>

theorem result_written_at_most_once:
  assumes "refs_allocated w"
  shows "m_result (bridges (snd (check_start wb name w)) (nextBridge w)) = False \<and>
     result_writes (nextBridge w) (fold life_step ls (snd (check_start wb name w))) \<le> 1 \<and>
     (\<forall>r w'. allowIDBFromWorkerThread wb name evs w = Some (r, w') \<longrightarrow>
        result_writes (nextBridge w) (fold life_step ls w') \<le> 1) \<and>
     m_result (bridges (cancel c v) b) = m_result (bridges v b) \<and>
     result_writes b (cancel c v) = result_writes b v \<and>
     m_result (bridges (signalCompleted c x mode v) b) = m_result (bridges v b) \<and>
     result_writes b (signalCompleted c x mode v) = result_writes b v \<and>
     m_result (bridges (snd (result c v)) b) = m_result (bridges v b) \<and>
     result_writes b (snd (result c v)) = result_writes b v \<and>
     m_result (bridges (didComplete b x v) b) = x \<and>
     result_writes b (didComplete b x v) = result_writes b v + 1"
proof -
  let ?b = "nextBridge w" and ?w2 = "snd (check_start wb name w)"
  note start = check_start_once [OF assms, of wb name]
  have init: "m_result (bridges ?w2 ?b) = False" by (simp add: check_start_eq)
  have bound: "result_writes ?b (fold life_step ks ?w2) \<le> 1" for ks
    using fold_life_once [OF start(3), of ks] start(1,2) by simp
  have ret: "result_writes ?b (fold life_step ls w') \<le> 1"
    if "allowIDBFromWorkerThread wb name evs w = Some (r, w')" for r w'
  proof -
    from check_is_life [OF that] obtain ks where "w' = fold life_step ks ?w2" ..
    then have "fold life_step ls w' = fold life_step (ks @ ls) ?w2" by simp
    with bound [of "ks @ ls"] show ?thesis by simp
  qed
  have frame: "m_result (bridges (cancel c v) b) = m_result (bridges v b)"
    "result_writes b (cancel c v) = result_writes b v"
    "m_result (bridges (signalCompleted c x mode v) b) = m_result (bridges v b)"
    "result_writes b (signalCompleted c x mode v) = result_writes b v"
    "m_result (bridges (snd (result c v)) b) = m_result (bridges v b)"
    "result_writes b (snd (result c v)) = result_writes b v"
    "m_result (bridges (didComplete b x v) b) = x"
    "result_writes b (didComplete b x v) = result_writes b v + 1"
    by (simp_all add: cancel_eq signalCompleted_eq result_eq didComplete_eq result_writes_def)
  from init bound [of ls] ret frame show ?thesis by blast
qed


theorem result_written_at_most_once_witness:
  "refs_allocated idle_world \<and>
   result_writes 0 (fold life_step [Env MainThreadRuns, PerformsInMode ''allowIndexedDBMode1'', PerformsNext,
       Env MainThreadRuns, PerformsInMode ''allowIndexedDBMode1'']
     (snd (check_start inbox_client ''inbox'' idle_world))) \<le> 1 \<and>
   result_writes 0 (fold life_step [Env MainThreadRuns, PerformsInMode ''allowIndexedDBMode1'']
     (snd (check_start inbox_client ''inbox'' idle_world))) = 1 \<and>
   m_result (bridges (fold life_step [Env MainThreadRuns, PerformsInMode ''allowIndexedDBMode1'']
     (snd (check_start inbox_client ''inbox'' idle_world))) 0) = True"
proof -
  have n: "nextBridge idle_world = 0" by (simp add: idle_world_def)
  from result_written_at_most_once [OF refs_allocated_idle, of inbox_client "''inbox''"
      "[Env MainThreadRuns, PerformsInMode ''allowIndexedDBMode1'', PerformsNext,
       Env MainThreadRuns, PerformsInMode ''allowIndexedDBMode1'']"]
  have le: "result_writes 0 (fold life_step [Env MainThreadRuns, PerformsInMode ''allowIndexedDBMode1'', PerformsNext,
       Env MainThreadRuns, PerformsInMode ''allowIndexedDBMode1'']
     (snd (check_start inbox_client ''inbox'' idle_world))) \<le> 1"
    by (simp only: n)
  have w1: "env_step MainThreadRuns (snd (check_start inbox_client ''inbox'' idle_world)) =
      (snd (check_start inbox_client ''inbox'' idle_world))
        \<lparr>mainQueue := [], workerQueue := [(''allowIndexedDBMode1'', DidComplete 0 True)],
         accesses := [Init 0 F_result, Init 0 F_webWorkerBase, Acquire 0, Read 0 F_webWorkerBase, Release 0]\<rparr>"
    by (simp add: check_start_eq check_mode_idle inbox_client_def)
       (simp add: idle_world_def allowIndexedDBTask_eq signalCompleted_eq answer_def)
  have nk: "\<not> killed (snd (check_start inbox_client ''inbox'' idle_world))"
    by (simp add: check_start_eq idle_world_def)
  have w2: "fold life_step [Env MainThreadRuns, PerformsInMode ''allowIndexedDBMode1'']
       (snd (check_start inbox_client ''inbox'' idle_world)) =
     didComplete 0 True
       ((snd (check_start inbox_client ''inbox'' idle_world))
          \<lparr>mainQueue := [],
           accesses := [Init 0 F_result, Init 0 F_webWorkerBase, Acquire 0, Read 0 F_webWorkerBase, Release 0],
           workerQueue := []\<rparr>)"
    by (simp add: w1 wake_up_def nk del: env_step.simps)
  have eq: "result_writes 0 (fold life_step [Env MainThreadRuns, PerformsInMode ''allowIndexedDBMode1'']
     (snd (check_start inbox_client ''inbox'' idle_world))) = 1"
    by (simp only: w2) (simp add: didComplete_eq result_writes_def)
  have res: "m_result (bridges (fold life_step [Env MainThreadRuns, PerformsInMode ''allowIndexedDBMode1'']
     (snd (check_start inbox_client ''inbox'' idle_world))) 0) = True"
    by (simp only: w2) (simp add: didComplete_eq)
  from refs_allocated_idle le eq res show ?thesis by simp
qed

end
